theory Spec2Isabelle
  imports Main "HOL-Library.AList" "HOL-Library.Multiset"
begin

section \<open>Wire values\<close>

text \<open>
  Both programs exchange JSON text over MQTT. A message body is either text that
  \<^verbatim>\<open>JSON.parse\<close> rejects (it throws a SyntaxError) or text that denotes a JSON value.
  Numbers are the integers the protocol uses (sequence numbers); an object lists its
  own properties, and a property lookup takes the first entry of a name.
\<close>

datatype json =
    JNull
  | JBool bool
  | JNum int
  | JStr string
  | JArr "json list"
  | JObj "(string \<times> json) list"

datatype wire = Malformed string | Wellformed json

datatype error =
    SyntaxError  \<comment> \<open>thrown by \<^verbatim>\<open>JSON.parse\<close>\<close>
  | Unmodelled   \<comment> \<open>a data payload that is JSON but not of the packet shape, see \<open>as_packet\<close>\<close>

fun JSON_parse :: "wire \<Rightarrow> error + json" where
  "JSON_parse (Malformed _) = Inl SyntaxError"
| "JSON_parse (Wellformed j) = Inr j"

definition JSON_stringify :: "json \<Rightarrow> wire" where
  "JSON_stringify j = Wellformed j"

text \<open>The wire unit of the data topics, \<^verbatim>\<open>{seq, data}\<close>.\<close>

record packet =
  seq :: int
  data :: string

definition packet_json :: "packet \<Rightarrow> json" where
  "packet_json p = JObj [(''seq'', JNum (seq p)), (''data'', JStr (data p))]"

text \<open>
  The listeners of the data topics read \<^verbatim>\<open>packet.seq\<close> and \<^verbatim>\<open>packet.data\<close> of whatever
  \<^verbatim>\<open>JSON.parse\<close> returned, without any check. The embedding covers the parsed values of
  the documented shape (an object with an integer \<^verbatim>\<open>seq\<close> and a string \<^verbatim>\<open>data\<close>); on any
  other JSON value JavaScript compares \<^verbatim>\<open>NaN\<close> inside \<^verbatim>\<open>Array.prototype.sort\<close> or throws
  a TypeError, which is left outside the model and signalled by \<open>Unmodelled\<close>.
\<close>

fun as_packet :: "json \<Rightarrow> packet option" where
  "as_packet (JObj fs) =
     (case (map_of fs ''seq'', map_of fs ''data'') of
        (Some (JNum n), Some (JStr d)) \<Rightarrow> Some \<lparr>seq = n, data = d\<rparr>
      | _ \<Rightarrow> None)"
| "as_packet _ = None"

section \<open>The identifier pattern\<close>

text \<open>
  \<^verbatim>\<open>PATTERN_UUID = '[0-9a-f]{8}(-[0-9a-f]{4}){3}-[0-9a-f]{12}'\<close>, the same constant in
  both programs. \<open>PATTERN_UUID_at s\<close> matches the pattern at the start of \<open>s\<close> and returns
  what follows the match. The schema validator compiles the \<^verbatim>\<open>pattern\<close> keyword to
  \<^verbatim>\<open>new RegExp(pattern, "u").test(data)\<close>, which searches for a match at any position:
  that is \<open>PATTERN_UUID_test\<close>. \<open>uuid_shaped\<close> is the match of the whole string.
\<close>

definition hex_digit :: "char \<Rightarrow> bool" where
  "hex_digit c = (c \<in> set ''0123456789abcdef'')"

fun hex_n :: "nat \<Rightarrow> string \<Rightarrow> string option" where
  "hex_n 0 s = Some s"
| "hex_n (Suc n) [] = None"
| "hex_n (Suc n) (c # cs) = (if hex_digit c then hex_n n cs else None)"

fun dash :: "string \<Rightarrow> string option" where
  "dash [] = None"
| "dash (c # cs) = (if c = CHR ''-'' then Some cs else None)"

definition dash_hex :: "nat \<Rightarrow> string \<Rightarrow> string option" where
  "dash_hex n s = (case dash s of None \<Rightarrow> None | Some r \<Rightarrow> hex_n n r)"

definition PATTERN_UUID_at :: "string \<Rightarrow> string option" where
  "PATTERN_UUID_at s =
     Option.bind (Option.bind (Option.bind (Option.bind (hex_n 8 s)
       (dash_hex 4)) (dash_hex 4)) (dash_hex 4)) (dash_hex 12)"

fun PATTERN_UUID_test :: "string \<Rightarrow> bool" where
  "PATTERN_UUID_test [] = (PATTERN_UUID_at [] \<noteq> None)"
| "PATTERN_UUID_test (c # cs) = (PATTERN_UUID_at (c # cs) \<noteq> None \<or> PATTERN_UUID_test cs)"

definition uuid_shaped :: "string \<Rightarrow> bool" where
  "uuid_shaped s = (PATTERN_UUID_at s = Some [])"

section \<open>Topic namespace\<close>

text \<open>
  \<^verbatim>\<open>topic = `${args.prefix}${args.id}`\<close> in the target and
  \<^verbatim>\<open>`${args.prefix}${targetId}`\<close> in the master, and the topics derived from it.
\<close>

definition topic :: "string \<Rightarrow> string \<Rightarrow> string" where
  "topic pre tid = pre @ tid"

definition topicList :: "string \<Rightarrow> string \<Rightarrow> string" where
  "topicList pre tid = topic pre tid @ ''/list''"

definition topicCreate :: "string \<Rightarrow> string \<Rightarrow> string" where
  "topicCreate pre tid = topic pre tid @ ''/create''"

definition topicRemove :: "string \<Rightarrow> string \<Rightarrow> string" where
  "topicRemove pre tid = topic pre tid @ ''/remove''"

definition topicTty :: "string \<Rightarrow> string \<Rightarrow> string \<Rightarrow> string" where
  "topicTty pre tid sid = topic pre tid @ ''/'' @ sid"

definition topicTtyIn :: "string \<Rightarrow> string \<Rightarrow> string \<Rightarrow> string" where
  "topicTtyIn pre tid sid = topicTty pre tid sid @ ''/in''"

definition topicTtyOut :: "string \<Rightarrow> string \<Rightarrow> string \<Rightarrow> string" where
  "topicTtyOut pre tid sid = topicTty pre tid sid @ ''/out''"

definition control_topics :: "string \<Rightarrow> string \<Rightarrow> string set" where
  "control_topics pre tid =
     {topic pre tid, topicList pre tid, topicCreate pre tid, topicRemove pre tid}"

definition session_topics :: "string \<Rightarrow> string \<Rightarrow> string \<Rightarrow> string set" where
  "session_topics pre tid sid = {topicTtyIn pre tid sid, topicTtyOut pre tid sid}"

definition topics :: "string \<Rightarrow> string \<Rightarrow> string \<Rightarrow> string set" where
  "topics pre tid sid = control_topics pre tid \<union> session_topics pre tid sid"

section \<open>Reassembly\<close>

text \<open>
  The receiving listener of either program (\<^verbatim>\<open>shell.onMessage\<close> in the target,
  \<^verbatim>\<open>onMessage\<close> in the master) runs the same statements on its buffer and counter:
  \<^verbatim>\<open>
    buffer.push(packet);
    buffer.sort((p1, p2) => p1.seq - p2.seq);
    while (buffer.length && buffer[0].seq === seq) { sink(buffer.shift().data); ++seq; }
  \<close>
  \<open>drain\<close> is the loop: it returns the packets handed to the sink, the counter and the
  buffer that is left. The sort is stable, as \<open>sort_key\<close> is.
\<close>

fun drain :: "packet list \<Rightarrow> int \<Rightarrow> packet list \<times> int \<times> packet list" where
  "drain [] n = ([], n, [])"
| "drain (p # ps) n =
     (if seq p = n
      then (case drain ps (n + 1) of (d, n', rest) \<Rightarrow> (p # d, n', rest))
      else ([], n, p # ps))"

definition reorder :: "packet \<Rightarrow> int \<Rightarrow> packet list \<Rightarrow> packet list \<times> int \<times> packet list" where
  "reorder p n buf = drain (sort_key seq (buf @ [p])) n"

text \<open>Feeding a list of packets, one call each; the first component collects the sink.\<close>

fun feed :: "packet list \<Rightarrow> packet list \<times> int \<times> packet list \<Rightarrow> packet list \<times> int \<times> packet list" where
  "feed [] s = s"
| "feed (p # ps) (out, n, buf) =
     (case reorder p n buf of (d, n', buf') \<Rightarrow> feed ps (out @ d, n', buf'))"

text \<open>
  The invariant of the reassembly while packets \<open>R\<close> with distinct sequence numbers from
  \<open>0\<close> on have arrived: sink and buffer together are \<open>R\<close> in sequence order, the sink
  holds the numbers below the counter, the buffer only numbers above it.
\<close>

definition reassembled :: "packet list \<Rightarrow> packet list \<times> int \<times> packet list \<Rightarrow> bool" where
  "reassembled R s =
     (case s of (out, n, buf) \<Rightarrow>
        sorted (map seq (out @ buf)) \<and> distinct (map seq (out @ buf)) \<and>
        mset (out @ buf) = mset R \<and> map seq out = [0..n - 1] \<and> 0 \<le> n \<and>
        (\<forall>q\<in>set buf. n < seq q))"

section \<open>Effects\<close>

text \<open>
  Every call a handler makes on the broker client, the logger, the pty process or the
  websocket is recorded, in program order. A \<^verbatim>\<open>'message'\<close> listener is named by the
  data topic it serves. A log call is recorded with its level and its message text
  (empty when the call gives none); the fields it merges in are left out.
\<close>

datatype level = LvError | LvWarn | LvInfo

datatype effect =
    Publish string wire "nat option"  \<comment> \<open>topic, payload, qos when given\<close>
  | Subscribe string
  | Unsubscribe string
  | On_message string
  | Off_message string
  | Log level string
  | Spawn nat string
  | Kill nat nat
  | Write nat string
  | WsClose
  | WsTerminate
  | WsPing
  | WsSend string
  | SetInterval nat
  | ClearInterval

section \<open>The target\<close>

text \<open>
  The command line of the target, as far as the handlers read it: \<^verbatim>\<open>args.prefix\<close>,
  \<^verbatim>\<open>args.id\<close> and \<^verbatim>\<open>args.shell\<close>.
\<close>

record args =
  arg_prefix :: string
  arg_id :: string
  arg_shell :: string

text \<open>
  \<^verbatim>\<open>params.id\<close> is a string, or \<^verbatim>\<open>undefined\<close> when the payload has no such property.
  A template literal prints \<^verbatim>\<open>undefined\<close> by its name; \<^verbatim>\<open>JSON.stringify\<close> prints it
  as \<^verbatim>\<open>null\<close> inside an array.
\<close>

type_synonym key = "string option"

definition key_text :: "key \<Rightarrow> string" where
  "key_text k = (case k of None \<Rightarrow> ''undefined'' | Some s \<Rightarrow> s)"

definition key_json :: "key \<Rightarrow> json" where
  "key_json k = (case k of None \<Rightarrow> JNull | Some s \<Rightarrow> JStr s)"

text \<open>
  \<^verbatim>\<open>VALIDATOR_CREATE\<close> and \<^verbatim>\<open>VALIDATOR_REMOVE\<close> compile the same schema: the value is
  an object (not an array, not \<^verbatim>\<open>null\<close>), and its property \<^verbatim>\<open>id\<close>, when present, is
  a string in which the pattern is found. The schema has no \<^verbatim>\<open>required\<close>.
\<close>

fun VALIDATOR_CREATE :: "json \<Rightarrow> bool" where
  "VALIDATOR_CREATE (JObj fs) =
     (case map_of fs ''id'' of
        None \<Rightarrow> True
      | Some (JStr s) \<Rightarrow> PATTERN_UUID_test s
      | Some _ \<Rightarrow> False)"
| "VALIDATOR_CREATE _ = False"

definition VALIDATOR_REMOVE :: "json \<Rightarrow> bool" where
  "VALIDATOR_REMOVE j = VALIDATOR_CREATE j"

fun params_id :: "json \<Rightarrow> key" where
  "params_id (JObj fs) = (case map_of fs ''id'' of Some (JStr s) \<Rightarrow> Some s | _ \<Rightarrow> None)"
| "params_id _ = None"

text \<open>
  One entry of \<^verbatim>\<open>shells\<close>: the pty process (numbered in spawn order) and the variables
  \<^verbatim>\<open>seqIn\<close>, \<^verbatim>\<open>seqOut\<close>, \<^verbatim>\<open>bufferIn\<close> that the entry's listener and callbacks close
  over.
\<close>

record shell =
  process :: nat
  seqIn :: int
  seqOut :: int
  bufferIn :: "packet list"

text \<open>
  The state of the target: the \<^verbatim>\<open>Map\<close> \<^verbatim>\<open>shells\<close> in insertion order, the pty processes
  that are alive, each with the \<^verbatim>\<open>params.id\<close> its \<^verbatim>\<open>onExit\<close> and \<^verbatim>\<open>onData\<close> callbacks
  captured, and the number of processes spawned so far.
\<close>

record target =
  shells :: "(key \<times> shell) list"
  procs :: "(nat \<times> key) list"
  spawned :: nat

definition target_init :: target where
  "target_init = \<lparr>shells = [], procs = [], spawned = 0\<rparr>"

text \<open>
  \<^verbatim>\<open>shells.has\<close>, \<^verbatim>\<open>shells.get\<close>, \<^verbatim>\<open>shells.set\<close> and \<^verbatim>\<open>shells.delete\<close> are \<open>has\<close>,
  \<open>map_of\<close>, \<open>AList.update\<close> (a new key goes to the end, a known key keeps its place)
  and \<open>AList.delete\<close>. \<^verbatim>\<open>pty.spawn\<close> is taken to succeed.
\<close>

definition has :: "key \<Rightarrow> (key \<times> shell) list \<Rightarrow> bool" where
  "has k m = (map_of m k \<noteq> None)"

definition ttyList :: "args \<Rightarrow> target \<Rightarrow> effect" where
  "ttyList cfg st =
     Publish (topicList (arg_prefix cfg) (arg_id cfg))
       (JSON_stringify (JArr (map (\<lambda>e. key_json (fst e)) (shells st)))) (Some 1)"

definition ttyCreate :: "args \<Rightarrow> wire \<Rightarrow> target \<Rightarrow> error + target \<times> effect list" where
  "ttyCreate cfg msg st =
     (case JSON_parse msg of
        Inl e \<Rightarrow> Inl e
      | Inr params \<Rightarrow>
          if \<not> VALIDATOR_CREATE params then Inr (st, [Log LvError ''invalid params''])
          else if has (params_id params) (shells st)
          then Inr (st, [Log LvWarn ''shell already exists''])
          else
            let k = params_id params;
                pid = spawned st;
                sh = \<lparr>process = pid, seqIn = 0, seqOut = 0, bufferIn = []\<rparr>;
                tin = topicTtyIn (arg_prefix cfg) (arg_id cfg) (key_text k);
                st' = st\<lparr>shells := AList.update k sh (shells st),
                         procs := procs st @ [(pid, k)],
                         spawned := Suc pid\<rparr>
            in Inr (st', [Log LvInfo [], Spawn pid (arg_shell cfg), Subscribe tin,
                          On_message tin, ttyList cfg st']))"

definition ttyRemove :: "args \<Rightarrow> wire \<Rightarrow> target \<Rightarrow> error + target \<times> effect list" where
  "ttyRemove cfg msg st =
     (case JSON_parse msg of
        Inl e \<Rightarrow> Inl e
      | Inr params \<Rightarrow>
          if \<not> VALIDATOR_REMOVE params then Inr (st, [Log LvError ''invalid params''])
          else (case map_of (shells st) (params_id params) of
                  None \<Rightarrow> Inr (st, [Log LvWarn ''shell does not exist''])
                | Some sh \<Rightarrow> Inr (st, [Log LvInfo [], Kill (process sh) 9])))"

text \<open>The callback given to \<^verbatim>\<open>shell.process.onExit\<close> by the create of \<open>k\<close>.\<close>

definition onExit :: "args \<Rightarrow> key \<Rightarrow> target \<Rightarrow> target \<times> effect list" where
  "onExit cfg k st =
     (let tin = topicTtyIn (arg_prefix cfg) (arg_id cfg) (key_text k);
          st' = st\<lparr>shells := AList.delete k (shells st)\<rparr>
      in (st', [Unsubscribe tin, Off_message tin, ttyList cfg st']))"

text \<open>The callback given to \<^verbatim>\<open>shell.process.onData\<close> by the create of \<open>k\<close>.\<close>

definition onData :: "args \<Rightarrow> key \<Rightarrow> string \<Rightarrow> target \<Rightarrow> target \<times> effect list" where
  "onData cfg k chunk st =
     (case map_of (shells st) k of
        None \<Rightarrow> (st, [])
      | Some sh \<Rightarrow>
          (st\<lparr>shells := AList.update k (sh\<lparr>seqOut := seqOut sh + 1\<rparr>) (shells st)\<rparr>,
           [Publish (topicTtyOut (arg_prefix cfg) (arg_id cfg) (key_text k))
              (JSON_stringify (packet_json \<lparr>seq = seqOut sh, data = chunk\<rparr>)) None]))"

text \<open>\<^verbatim>\<open>shell.onMessage\<close>, the listener of one entry, serving the topic \<open>tin\<close>.\<close>

definition shell_onMessage :: "string \<Rightarrow> string \<Rightarrow> wire \<Rightarrow> shell \<Rightarrow> error + shell \<times> effect list" where
  "shell_onMessage tin t msg sh =
     (if t \<noteq> tin then Inr (sh, [])
      else (case JSON_parse msg of
              Inl e \<Rightarrow> Inl e
            | Inr j \<Rightarrow>
                (case as_packet j of
                   None \<Rightarrow> Inl Unmodelled
                 | Some p \<Rightarrow>
                     (case reorder p (seqIn sh) (bufferIn sh) of
                        (d, n, buf) \<Rightarrow>
                          Inr (sh\<lparr>seqIn := n, bufferIn := buf\<rparr>,
                               map (\<lambda>q. Write (process sh) (data q)) d)))))"

text \<open>A list of messages that arrive on one topic, handed to the listener one by one.\<close>

fun shell_feed :: "string \<Rightarrow> string \<Rightarrow> wire list \<Rightarrow> shell \<Rightarrow> error + shell \<times> effect list" where
  "shell_feed tin t [] sh = Inr (sh, [])"
| "shell_feed tin t (msg # msgs) sh =
     (case shell_onMessage tin t msg sh of
        Inl e \<Rightarrow> Inl e
      | Inr (sh1, es1) \<Rightarrow>
          (case shell_feed tin t msgs sh1 of
             Inl e \<Rightarrow> Inl e
           | Inr (sh2, es2) \<Rightarrow> Inr (sh2, es1 @ es2)))"

text \<open>The handler of the broker client's \<^verbatim>\<open>'connect'\<close> event.\<close>

definition on_connect :: "args \<Rightarrow> target \<Rightarrow> effect list" where
  "on_connect cfg st =
     [ttyList cfg st,
      Subscribe (topicCreate (arg_prefix cfg) (arg_id cfg)),
      Subscribe (topicRemove (arg_prefix cfg) (arg_id cfg))]"

text \<open>The \<^verbatim>\<open>'message'\<close> listener installed at start-up: the \<^verbatim>\<open>switch\<close> on the topic.\<close>

definition control_onMessage :: "args \<Rightarrow> string \<Rightarrow> wire \<Rightarrow> target \<Rightarrow> error + target \<times> effect list" where
  "control_onMessage cfg t msg st =
     (if t = topicCreate (arg_prefix cfg) (arg_id cfg) then ttyCreate cfg msg st
      else if t = topicRemove (arg_prefix cfg) (arg_id cfg) then ttyRemove cfg msg st
      else Inr (st, []))"

text \<open>
  The emitter calls the listeners that were registered when the message arrived, in
  registration order: the start-up listener, then the listener of each entry of
  \<^verbatim>\<open>shells\<close>. A listener that throws ends the dispatch.
\<close>

fun shell_listeners :: "args \<Rightarrow> string \<Rightarrow> wire \<Rightarrow> key list \<Rightarrow> target \<Rightarrow> error + target \<times> effect list" where
  "shell_listeners cfg t msg [] st = Inr (st, [])"
| "shell_listeners cfg t msg (k # ks) st =
     (case map_of (shells st) k of
        None \<Rightarrow> shell_listeners cfg t msg ks st
      | Some sh \<Rightarrow>
          (case shell_onMessage (topicTtyIn (arg_prefix cfg) (arg_id cfg) (key_text k)) t msg sh of
             Inl e \<Rightarrow> Inl e
           | Inr (sh', es) \<Rightarrow>
               (case shell_listeners cfg t msg ks (st\<lparr>shells := AList.update k sh' (shells st)\<rparr>) of
                  Inl e \<Rightarrow> Inl e
                | Inr (st', es') \<Rightarrow> Inr (st', es @ es'))))"

definition on_message :: "args \<Rightarrow> string \<Rightarrow> wire \<Rightarrow> target \<Rightarrow> error + target \<times> effect list" where
  "on_message cfg t msg st =
     (case control_onMessage cfg t msg st of
        Inl e \<Rightarrow> Inl e
      | Inr (st1, es1) \<Rightarrow>
          (case shell_listeners cfg t msg (map fst (shells st)) st1 of
             Inl e \<Rightarrow> Inl e
           | Inr (st2, es2) \<Rightarrow> Inr (st2, es1 @ es2)))"

text \<open>
  What can happen to the target: the broker connects, a message arrives, a live process
  exits or writes output. An exit or output of a process that is not alive does not
  happen and changes nothing here. A handler that throws ends the run.
\<close>

datatype event = Connect | Message string wire | Exit nat | Data nat string

definition step :: "args \<Rightarrow> event \<Rightarrow> target \<Rightarrow> error + target \<times> effect list" where
  "step cfg ev st =
     (case ev of
        Connect \<Rightarrow> Inr (st, on_connect cfg st)
      | Message t msg \<Rightarrow> on_message cfg t msg st
      | Exit pid \<Rightarrow>
          (case map_of (procs st) pid of
             None \<Rightarrow> Inr (st, [])
           | Some k \<Rightarrow> Inr (onExit cfg k (st\<lparr>procs := AList.delete pid (procs st)\<rparr>)))
      | Data pid chunk \<Rightarrow>
          (case map_of (procs st) pid of
             None \<Rightarrow> Inr (st, [])
           | Some k \<Rightarrow> Inr (onData cfg k chunk st)))"

fun run :: "args \<Rightarrow> event list \<Rightarrow> target \<Rightarrow> error + target \<times> effect list" where
  "run cfg [] st = Inr (st, [])"
| "run cfg (ev # evs) st =
     (case step cfg ev st of
        Inl e \<Rightarrow> Inl e
      | Inr (st1, es1) \<Rightarrow>
          (case run cfg evs st1 of
             Inl e \<Rightarrow> Inl e
           | Inr (st2, es2) \<Rightarrow> Inr (st2, es1 @ es2)))"

text \<open>
  The entries of \<^verbatim>\<open>shells\<close> as pairs of process and session identifier, and the
  invariant of the registry: no identifier and no process occurs twice, the entries of
  \<^verbatim>\<open>shells\<close> are exactly the live processes with the identifier each was spawned
  for, in the same order, and every live process was spawned.
\<close>

definition bound :: "target \<Rightarrow> (nat \<times> key) list" where
  "bound st = map (\<lambda>e. (process (snd e), fst e)) (shells st)"

definition registry_ok :: "target \<Rightarrow> bool" where
  "registry_ok st =
     (distinct (map fst (shells st)) \<and> distinct (map fst (procs st)) \<and>
      bound st = procs st \<and> list_all (\<lambda>e. fst e < spawned st) (procs st))"

section \<open>The master\<close>

definition HEARTBEAT_INTERVAL :: nat where
  "HEARTBEAT_INTERVAL = 30000"

text \<open>
  \<^verbatim>\<open>VALIDATOR_TARGET\<close> takes what \<^verbatim>\<open>url.searchParams.get('target')\<close> returned: a string,
  or \<^verbatim>\<open>null\<close> when the request has no such parameter.
\<close>

definition VALIDATOR_TARGET :: "string option \<Rightarrow> bool" where
  "VALIDATOR_TARGET t = (case t of None \<Rightarrow> False | Some s \<Rightarrow> PATTERN_UUID_test s)"

text \<open>
  What the handler of one accepted websocket closes over: the two identifiers, the
  flag \<^verbatim>\<open>isAlive\<close>, the counters \<^verbatim>\<open>seqIn\<close> and \<^verbatim>\<open>seqOut\<close>, the buffer \<^verbatim>\<open>bufferOut\<close>;
  and, of its environment, whether the interval timer is scheduled, whether
  \<^verbatim>\<open>onMessage\<close> is registered on the broker client, and whether the websocket is open.
\<close>

record conn =
  targetId :: string
  ttyId :: string
  isAlive :: bool
  m_seqIn :: int
  m_seqOut :: int
  bufferOut :: "packet list"
  heartbeat :: bool
  listening :: bool
  is_open :: bool

text \<open>
  The handler of the server's \<^verbatim>\<open>'connection'\<close> event, for the prefix \<open>pre\<close>. \<open>fresh\<close> is
  the identifier \<^verbatim>\<open>uuid.v4()\<close> returns when it is called. No connection state exists
  after a rejected request: the handler returns before it registers anything. The
  template literal \<^verbatim>\<open>`${args.prefix}${targetId}`\<close> prints \<^verbatim>\<open>null\<close> by its name.
\<close>

definition target_text :: "string option \<Rightarrow> string" where
  "target_text t = (case t of None \<Rightarrow> ''null'' | Some s \<Rightarrow> s)"

definition connection :: "string \<Rightarrow> string \<Rightarrow> string option \<Rightarrow> conn option \<times> effect list" where
  "connection pre fresh target_param =
     (if \<not> VALIDATOR_TARGET target_param
      then (None, [Log LvError ''invalid target id'', WsClose])
      else
        let tid = target_text target_param;
            tout = topicTtyOut pre tid fresh
        in (Some \<lparr>targetId = tid, ttyId = fresh, isAlive = True, m_seqIn = 0, m_seqOut = 0,
                   bufferOut = [], heartbeat = True, listening = True, is_open = True\<rparr>,
            [Log LvInfo ''connected'',
             Publish (topicCreate pre tid) (JSON_stringify (JObj [(''id'', JStr fresh)])) (Some 1),
             SetInterval HEARTBEAT_INTERVAL,
             Subscribe tout,
             On_message tout]))"

text \<open>The callback of \<^verbatim>\<open>setInterval\<close>.\<close>

definition heartbeat_tick :: "conn \<Rightarrow> conn \<times> effect list" where
  "heartbeat_tick c =
     (if \<not> isAlive c then (c, [WsTerminate])
      else (c\<lparr>isAlive := False\<rparr>, [WsPing]))"

definition on_pong :: "conn \<Rightarrow> conn" where
  "on_pong c = c\<lparr>isAlive := True\<rparr>"

text \<open>\<^verbatim>\<open>onMessage\<close>, the broker listener of the connection.\<close>

definition onMessage :: "string \<Rightarrow> string \<Rightarrow> wire \<Rightarrow> conn \<Rightarrow> error + conn \<times> effect list" where
  "onMessage pre t msg c =
     (if t \<noteq> topicTtyOut pre (targetId c) (ttyId c) then Inr (c, [])
      else (case JSON_parse msg of
              Inl e \<Rightarrow> Inl e
            | Inr j \<Rightarrow>
                (case as_packet j of
                   None \<Rightarrow> Inl Unmodelled
                 | Some p \<Rightarrow>
                     (case reorder p (m_seqOut c) (bufferOut c) of
                        (d, n, buf) \<Rightarrow>
                          Inr (c\<lparr>m_seqOut := n, bufferOut := buf\<rparr>,
                               map (\<lambda>q. WsSend (data q)) d)))))"

text \<open>The handler of the websocket's \<^verbatim>\<open>'message'\<close> event.\<close>

definition ws_message :: "string \<Rightarrow> string \<Rightarrow> conn \<Rightarrow> conn \<times> effect list" where
  "ws_message pre chunk c =
     (c\<lparr>m_seqIn := m_seqIn c + 1\<rparr>,
      [Publish (topicTtyIn pre (targetId c) (ttyId c))
         (JSON_stringify (packet_json \<lparr>seq = m_seqIn c, data = chunk\<rparr>)) None])"

text \<open>The handler of the websocket's \<^verbatim>\<open>'close'\<close> event.\<close>

definition on_close :: "string \<Rightarrow> conn \<Rightarrow> conn \<times> effect list" where
  "on_close pre c =
     (c\<lparr>heartbeat := False, listening := False\<rparr>,
      [Log LvInfo ''disconnected'',
       ClearInterval,
       Unsubscribe (topicTtyOut pre (targetId c) (ttyId c)),
       Off_message (topicTtyOut pre (targetId c) (ttyId c)),
       Publish (topicRemove pre (targetId c)) (JSON_stringify (JObj [(''id'', JStr (ttyId c))])) (Some 1)])"

text \<open>
  What can happen to an accepted connection. The timer fires while it is scheduled;
  a broker message reaches \<^verbatim>\<open>onMessage\<close> while it is registered; a pong, a websocket
  message or a close by the peer arrive while the websocket is open. The websocket
  emits \<^verbatim>\<open>'close'\<close> once, when the peer closes or after \<^verbatim>\<open>terminate()\<close> destroyed the
  socket; the model runs the close handler right after the callback that called
  \<^verbatim>\<open>terminate()\<close>.
\<close>

datatype ws_event = Tick | Pong | WsMessage string | MqttMessage string wire | PeerClose

definition closing :: "string \<Rightarrow> conn \<Rightarrow> conn \<times> effect list" where
  "closing pre c = on_close pre (c\<lparr>is_open := False\<rparr>)"

definition ws_step :: "string \<Rightarrow> ws_event \<Rightarrow> conn \<Rightarrow> error + conn \<times> effect list" where
  "ws_step pre ev c =
     (case ev of
        Tick \<Rightarrow>
          if \<not> heartbeat c then Inr (c, [])
          else (case heartbeat_tick c of
                  (c1, es1) \<Rightarrow>
                    if WsTerminate \<in> set es1 \<and> is_open c1
                    then (case closing pre c1 of (c2, es2) \<Rightarrow> Inr (c2, es1 @ es2))
                    else Inr (c1, es1))
      | Pong \<Rightarrow> if is_open c then Inr (on_pong c, []) else Inr (c, [])
      | WsMessage chunk \<Rightarrow> if is_open c then Inr (ws_message pre chunk c) else Inr (c, [])
      | MqttMessage t msg \<Rightarrow> if listening c then onMessage pre t msg c else Inr (c, [])
      | PeerClose \<Rightarrow> if is_open c then Inr (closing pre c) else Inr (c, []))"

text \<open>
  An event that no handler throws on, for a connection whose out topic is \<open>tout\<close>: a
  broker message is for another topic, or its payload parses to the packet shape.
\<close>

definition readable :: "string \<Rightarrow> ws_event \<Rightarrow> bool" where
  "readable tout ev =
     (case ev of
        MqttMessage t msg \<Rightarrow>
          t \<noteq> tout \<or> (case msg of Malformed _ \<Rightarrow> False | Wellformed j \<Rightarrow> as_packet j \<noteq> None)
      | _ \<Rightarrow> True)"

fun ws_run :: "string \<Rightarrow> ws_event list \<Rightarrow> conn \<Rightarrow> error + conn \<times> effect list" where
  "ws_run pre [] c = Inr (c, [])"
| "ws_run pre (ev # evs) c =
     (case ws_step pre ev c of
        Inl e \<Rightarrow> Inl e
      | Inr (c1, es1) \<Rightarrow>
          (case ws_run pre evs c1 of
             Inl e \<Rightarrow> Inl e
           | Inr (c2, es2) \<Rightarrow> Inr (c2, es1 @ es2)))"

section \<open>Reassembly: proofs\<close>


lemma drain_split:
  "drain L n = (d, n', rest) \<Longrightarrow>
     L = d @ rest \<and> map seq d = [n..n' - 1] \<and> n \<le> n' \<and> (rest = [] \<or> seq (hd rest) \<noteq> n')"
proof (induction L arbitrary: n d n' rest)
  case Nil
  then show ?case by simp
next
  case (Cons p ps)
  show ?case
  proof (cases "seq p = n")
    case True
    obtain d1 n1 r1 where dr: "drain ps (n + 1) = (d1, n1, r1)"
      by (cases "drain ps (n + 1)") auto
    from Cons.IH[OF dr] have ih: "ps = d1 @ r1" "map seq d1 = [n + 1..n1 - 1]" "n + 1 \<le> n1"
      "r1 = [] \<or> seq (hd r1) \<noteq> n1" by auto
    from Cons.prems True dr have eq: "d = p # d1" "n' = n1" "rest = r1" by auto
    have "[n..n1 - 1] = n # [n + 1..n1 - 1]" using ih(3) by (simp add: upto_rec1)
    with ih eq True show ?thesis by auto
  next
    case False
    with Cons.prems show ?thesis by auto
  qed
qed


lemma reorder_reassembled:
  assumes I: "reassembled R (out, n, buf)"
    and new: "seq p \<notin> seq ` set R" "0 \<le> seq p"
    and ro: "reorder p n buf = (d, n', buf')"
  shows "reassembled (R @ [p]) (out @ d, n', buf')"
proof -
  define L where "L = sort_key seq (buf @ [p])"
  from I have srt: "sorted (map seq (out @ buf))" and dst: "distinct (map seq (out @ buf))"
    and ms: "mset (out @ buf) = mset R" and so: "map seq out = [0..n - 1]" and n0: "0 \<le> n"
    and big: "\<forall>q\<in>set buf. n < seq q"
    by (auto simp: reassembled_def)
  have setR: "set R = set out \<union> set buf" using ms by (metis mset_eq_setD set_append)
  have outs: "seq ` set out = {0..n - 1}" using so by (metis set_map set_upto)
  have pn: "n \<le> seq p"
  proof (rule ccontr)
    assume "\<not> n \<le> seq p"
    with new(2) have "seq p \<in> {0..n - 1}" by auto
    with outs setR new(1) show False by auto
  qed
  have pbuf: "seq p \<notin> seq ` set buf" "seq p \<notin> seq ` set out" using new(1) setR by auto
  from ro have dr: "drain L n = (d, n', buf')" by (simp add: reorder_def L_def)
  from drain_split[OF dr] have L: "L = d @ buf'" and sd: "map seq d = [n..n' - 1]"
    and nn: "n \<le> n'" and hd: "buf' = [] \<or> seq (hd buf') \<noteq> n'" by auto
  have sL: "sorted (map seq L)" unfolding L_def by (rule sorted_sort_key)
  have mL: "mset L = mset buf + {#p#}" unfolding L_def by simp
  have setL: "set L = set buf \<union> {p}" unfolding L_def by simp
  have geL: "\<forall>q\<in>set L. n \<le> seq q" using big pn setL by auto
  have dbuf: "distinct (map seq buf)" using dst by simp
  have dL: "distinct (map seq L)"
  proof -
    have "mset (map seq L) = mset (map seq (buf @ [p]))" unfolding L_def by simp
    moreover have "distinct (map seq (buf @ [p]))" using dbuf pbuf by simp
    ultimately show ?thesis by (metis mset_eq_imp_distinct_iff)
  qed
  have s1: "sorted (map seq (out @ L))"
  proof -
    have "sorted (map seq out)" using so by simp
    moreover have "\<forall>x\<in>set (map seq out). \<forall>y\<in>set (map seq L). x \<le> y"
      using outs geL by auto
    ultimately show ?thesis using sL by (simp add: sorted_append)
  qed
  have d1: "distinct (map seq (out @ L))"
  proof -
    have "\<And>x y. x \<in> set out \<Longrightarrow> y \<in> set L \<Longrightarrow> seq x \<noteq> seq y"
    proof -
      fix x y assume "x \<in> set out" "y \<in> set L"
      then have "seq x \<in> {0..n - 1}" "n \<le> seq y" using outs geL by auto
      then show "seq x \<noteq> seq y" by auto
    qed
    then have "seq ` set out \<inter> seq ` set L = {}" by auto
    moreover have "distinct (map seq out)" using dst by simp
    ultimately show ?thesis using dL by (simp)
  qed
  have m1: "mset (out @ L) = mset (R @ [p])" using ms mL by simp
  have so': "map seq (out @ d) = [0..n' - 1]"
  proof -
    have "[0..n' - 1] = [0..n - 1] @ [n..n' - 1]"
    proof (cases "n = n'")
      case True
      then show ?thesis by simp
    next
      case False
      with nn have "n \<le> n' - 1" by simp
      with n0 show ?thesis using upto_split1[of 0 n "n' - 1"] by simp
    qed
    then show ?thesis using so sd by simp
  qed
  have big': "\<forall>q\<in>set buf'. n' < seq q"
  proof
    fix q assume q: "q \<in> set buf'"
    then have ne: "buf' \<noteq> []" by auto
    with hd have hdne: "seq (hd buf') \<noteq> n'" by simp
    have sb: "sorted (map seq buf')" using sL L by (simp add: sorted_append)
    have hq: "seq (hd buf') \<le> seq q" using sb q ne by (cases buf') auto
    have hge: "n' \<le> seq (hd buf')"
    proof (cases "d = []")
      case True
      with sd nn have "n' = n" by (cases "n \<le> n' - 1") auto
      moreover have "hd buf' \<in> set L" using L ne by (metis Un_iff hd_in_set set_append)
      ultimately show ?thesis using geL by blast
    next
      case False
      then have "last d \<in> set d" by simp
      have "seq (last d) = last (map seq d)" using False by (simp add: last_map)
      also have "\<dots> = n' - 1"
      proof -
        have "n \<le> n' - 1" using sd False by (cases "n \<le> n' - 1") auto
        then have "[n..n' - 1] = [n..n' - 1 - 1] @ [n' - 1]" by (rule upto_rec2)
        then have "last [n..n' - 1] = n' - 1" by (metis last_snoc)
        then show ?thesis using sd by simp
      qed
      finally have ld: "seq (last d) = n' - 1" .
      have hin: "hd buf' \<in> set buf'" using ne by simp
      have "seq (last d) \<le> seq (hd buf')" using sL L \<open>last d \<in> set d\<close> hin
        by (simp add: sorted_append)
      moreover have "seq (last d) \<noteq> seq (hd buf')"
      proof -
        have "distinct (map seq (d @ buf'))" using dL L by simp
        then have "seq ` set d \<inter> seq ` set buf' = {}" by simp
        then show ?thesis using \<open>last d \<in> set d\<close> hin by blast
      qed
      ultimately show ?thesis using ld by simp
    qed
    show "n' < seq q" using hq hge hdne by simp
  qed
  have e: "out @ L = (out @ d) @ buf'" using L by simp
  have n0': "0 \<le> n'" using n0 nn by simp
  show ?thesis
    unfolding reassembled_def prod.case
    using s1[unfolded e] d1[unfolded e] m1[unfolded e] so' n0' big' by blast
qed

lemma feed_reassembled:
  "reassembled R s \<Longrightarrow> distinct (map seq (R @ ps)) \<Longrightarrow> \<forall>q\<in>set ps. 0 \<le> seq q \<Longrightarrow> reassembled (R @ ps) (feed ps s)"
proof (induction ps arbitrary: R s)
  case Nil
  then show ?case by simp
next
  case (Cons p ps)
  obtain out n buf where s: "s = (out, n, buf)" by (cases s) auto
  obtain d n' buf' where ro: "reorder p n buf = (d, n', buf')" by (cases "reorder p n buf") auto
  have new: "seq p \<notin> seq ` set R" "0 \<le> seq p" using Cons.prems(2,3) by auto
  have I1: "reassembled (R @ [p]) (out @ d, n', buf')"
    using reorder_reassembled[OF Cons.prems(1)[unfolded s] new ro] .
  have "reassembled ((R @ [p]) @ ps) (feed ps (out @ d, n', buf'))"
    using Cons.IH[OF I1] Cons.prems(2,3) by simp
  then show ?case using s ro by simp
qed

lemma reassembled_init: "reassembled [] ([], 0, [])"
  by (simp add: reassembled_def)

lemma reassembled_complete:
  assumes I: "reassembled R (out, n, buf)" and full: "seq ` set R = {0..<int N}"
  shows "buf = [] \<and> n = int N \<and> map seq out = map int [0..<N] \<and> mset out = mset R"
proof -
  from I have ms: "mset (out @ buf) = mset R" and so: "map seq out = [0..n - 1]" and n0: "0 \<le> n"
    and big: "\<forall>q\<in>set buf. n < seq q"
    by (auto simp: reassembled_def)
  have setR: "set R = set out \<union> set buf" using ms by (metis mset_eq_setD set_append)
  have outs: "seq ` set out = {0..n - 1}" using so by (metis set_map set_upto)
  have nN: "n = int N"
  proof (rule ccontr)
    assume ne: "n \<noteq> int N"
    show False
    proof (cases "n < int N")
      case True
      with n0 full have "n \<in> seq ` set R" by auto
      then obtain q where q: "q \<in> set R" "seq q = n" by auto
      from q(1) setR have "q \<in> set out \<or> q \<in> set buf" by simp
      then show False
      proof
        assume "q \<in> set out"
        then have "seq q \<in> {0..n - 1}" using outs by blast
        with q(2) show False by simp
      next
        assume "q \<in> set buf"
        with big q(2) show False by auto
      qed
    next
      case False
      with ne have "int N \<le> n - 1" by simp
      moreover have "0 \<le> int N" by simp
      ultimately have "int N \<in> seq ` set out" using outs by simp
      then have "int N \<in> seq ` set R" using setR by auto
      with full show False by simp
    qed
  qed
  have b: "buf = []"
  proof (rule ccontr)
    assume "buf \<noteq> []"
    then obtain q where q: "q \<in> set buf" by (cases buf) auto
    with big have "n < seq q" by simp
    moreover have "seq q \<in> seq ` set R" using q setR by simp
    then have "seq q \<in> {0..<int N}" using full by simp
    ultimately show False using nN by simp
  qed
  have "[0..int N - 1] = map int [0..<N]"
    by (induction N) (auto simp: upto_rec2)
  with so nN b ms show ?thesis by simp
qed

lemma feed_permutation:
  assumes "mset (map seq ps) = mset (map int [0..<N])"
  shows "\<exists>out. feed ps ([], 0, []) = (out, int N, []) \<and> map seq out = map int [0..<N] \<and> mset out = mset ps"
proof -
  have "distinct (map int [0..<N])" by (simp add: distinct_map inj_on_def)
  then have d: "distinct (map seq ps)" using assms by (metis mset_eq_imp_distinct_iff)
  have st: "set (map seq ps) = set (map int [0..<N])" using assms by (rule mset_eq_setD)
  have "int ` {0..<N} = {0..<int N}" by (rule image_int_atLeastLessThan[of 0 N, simplified])
  then have full: "seq ` set ps = {0..<int N}" using st by simp
  have pos: "\<forall>q\<in>set ps. 0 \<le> seq q" using full by auto
  obtain out n buf where f: "feed ps ([], 0, []) = (out, n, buf)" by (cases "feed ps ([], 0, [])") auto
  have "reassembled ([] @ ps) (feed ps ([], 0, []))" using feed_reassembled[OF reassembled_init] d pos by simp
  then have "reassembled ps (out, n, buf)" using f by simp
  from reassembled_complete[OF this full] f show ?thesis by simp
qed

lemma filter_key_distinct:
  "distinct (map f xs) \<Longrightarrow> k \<in> set xs \<Longrightarrow> filter (\<lambda>x. f k = f x) xs = [k]"
proof (induction xs)
  case Nil
  then show ?case by simp
next
  case (Cons x xs)
  show ?case
  proof (cases "k = x")
    case True
    have "\<forall>y\<in>set xs. f x \<noteq> f y" using Cons.prems(1) by auto
    then have "filter (\<lambda>y. f x = f y) xs = []" by (simp add: filter_empty_conv)
    with True show ?thesis by simp
  next
    case False
    with Cons.prems have kin: "k \<in> set xs" by simp
    then have "f k \<in> f ` set xs" by (rule imageI)
    then have "f k \<noteq> f x" using Cons.prems(1) by auto
    moreover have "filter (\<lambda>x. f k = f x) xs = [k]" using Cons.IH Cons.prems(1) kin by simp
    ultimately show ?thesis by simp
  qed
qed

lemma sort_key_unique:
  assumes "mset ys = mset xs" "sorted (map f ys)" "distinct (map f xs)"
  shows "sort_key f xs = ys"
proof (rule properties_for_sort_key[OF assms(1) _ assms(2)])
  fix k assume k: "k \<in> set ys"
  have dy: "distinct (map f ys)"
  proof -
    have "mset (map f ys) = mset (map f xs)" using assms(1) by simp
    then show ?thesis using assms(3) by (metis mset_eq_imp_distinct_iff)
  qed
  have kx: "k \<in> set xs" using k assms(1) by (metis mset_eq_setD)
  show "filter (\<lambda>x. f k = f x) ys = filter (\<lambda>x. f k = f x) xs"
    using filter_key_distinct[OF dy k] filter_key_distinct[OF assms(3) kx] by simp
qed

lemma feed_sorted:
  assumes "mset (map seq ps) = mset (map int [0..<N])"
  shows "feed ps ([], 0, []) = (sort_key seq ps, int N, []) \<and> map seq (sort_key seq ps) = map int [0..<N]"
proof -
  from feed_permutation[OF assms] obtain out where
    f: "feed ps ([], 0, []) = (out, int N, [])" and so: "map seq out = map int [0..<N]"
    and ms: "mset out = mset ps" by blast
  have "distinct (map int [0..<N])" by (simp add: distinct_map inj_on_def)
  then have d: "distinct (map seq ps)" using assms by (metis mset_eq_imp_distinct_iff)
  have "sorted (map int [0..<N])" by (simp add: sorted_map strict_sorted_iff sorted_wrt_map) 
  then have "sorted (map seq out)" using so by simp
  from sort_key_unique[OF ms this d] have "sort_key seq ps = out" .
  with f so show ?thesis by simp
qed

lemma feed_acc:
  "feed ps (out0, n, buf) =
     (case feed ps ([], n, buf) of (out, n', buf') \<Rightarrow> (out0 @ out, n', buf'))"
proof (induction ps arbitrary: out0 n buf)
  case Nil
  then show ?case by simp
next
  case (Cons p ps)
  obtain d n1 b1 where ro: "reorder p n buf = (d, n1, b1)" by (cases "reorder p n buf") auto
  obtain out n2 b2 where f: "feed ps ([], n1, b1) = (out, n2, b2)" by (cases "feed ps ([], n1, b1)") auto
  have "feed ps (out0 @ d, n1, b1) = ((out0 @ d) @ out, n2, b2)" using Cons.IH[of "out0 @ d" n1 b1] f by simp
  moreover have "feed ps ([] @ d, n1, b1) = (d @ out, n2, b2)" using Cons.IH[of "d" n1 b1] f by simp
  ultimately show ?case using ro by simp
qed

lemma as_packet_json: "as_packet (packet_json p) = Some p"
  by (simp add: packet_json_def)

lemma shell_feed_feed:
  "shell_feed tin tin (map (\<lambda>p. JSON_stringify (packet_json p)) ps) sh =
     (case feed ps ([], seqIn sh, bufferIn sh) of
        (out, n, buf) \<Rightarrow>
          Inr (sh\<lparr>seqIn := n, bufferIn := buf\<rparr>, map (\<lambda>q. Write (process sh) (data q)) out))"
proof (induction ps arbitrary: sh)
  case Nil
  then show ?case by simp
next
  case (Cons p ps)
  obtain d n1 b1 where ro: "reorder p (seqIn sh) (bufferIn sh) = (d, n1, b1)"
    by (cases "reorder p (seqIn sh) (bufferIn sh)") auto
  obtain out n2 b2 where f: "feed ps ([], n1, b1) = (out, n2, b2)" by (cases "feed ps ([], n1, b1)") auto
  have one: "shell_onMessage tin tin (JSON_stringify (packet_json p)) sh =
      Inr (sh\<lparr>seqIn := n1, bufferIn := b1\<rparr>, map (\<lambda>q. Write (process sh) (data q)) d)"
    using ro by (simp add: shell_onMessage_def JSON_stringify_def as_packet_json)
  have rest: "shell_feed tin tin (map (\<lambda>p. JSON_stringify (packet_json p)) ps) (sh\<lparr>seqIn := n1, bufferIn := b1\<rparr>) =
      Inr (sh\<lparr>seqIn := n2, bufferIn := b2\<rparr>, map (\<lambda>q. Write (process sh) (data q)) out)"
    using Cons.IH[of "sh\<lparr>seqIn := n1, bufferIn := b1\<rparr>"] f by simp
  have "feed (p # ps) ([], seqIn sh, bufferIn sh) = (d @ out, n2, b2)"
    using ro f feed_acc[of ps d n1 b1] by simp
  then show ?case using one rest by simp
qed

lemma ws_run_feed:
  "listening c \<Longrightarrow>
   ws_run pre (map (\<lambda>p. MqttMessage (topicTtyOut pre (targetId c) (ttyId c)) (JSON_stringify (packet_json p))) ps) c =
     (case feed ps ([], m_seqOut c, bufferOut c) of
        (out, n, buf) \<Rightarrow>
          Inr (c\<lparr>m_seqOut := n, bufferOut := buf\<rparr>, map (\<lambda>q. WsSend (data q)) out))"
proof (induction ps arbitrary: c)
  case Nil
  then show ?case by simp
next
  case (Cons p ps)
  let ?t = "topicTtyOut pre (targetId c) (ttyId c)"
  let ?c1 = "\<lambda>n b. c\<lparr>m_seqOut := n, bufferOut := b\<rparr>"
  obtain d n1 b1 where ro: "reorder p (m_seqOut c) (bufferOut c) = (d, n1, b1)"
    by (cases "reorder p (m_seqOut c) (bufferOut c)") auto
  obtain out n2 b2 where f: "feed ps ([], n1, b1) = (out, n2, b2)" by (cases "feed ps ([], n1, b1)") auto
  have one: "ws_step pre (MqttMessage ?t (JSON_stringify (packet_json p))) c =
      Inr (?c1 n1 b1, map (\<lambda>q. WsSend (data q)) d)"
    using ro Cons.prems by (simp add: ws_step_def onMessage_def JSON_stringify_def as_packet_json)
  have rest: "ws_run pre (map (\<lambda>p. MqttMessage ?t (JSON_stringify (packet_json p))) ps) (?c1 n1 b1) =
      Inr (?c1 n2 b2, map (\<lambda>q. WsSend (data q)) out)"
    using Cons.IH[of "?c1 n1 b1"] f Cons.prems by simp
  have "feed (p # ps) ([], m_seqOut c, bufferOut c) = (d @ out, n2, b2)"
    using ro f feed_acc[of ps d n1 b1] by simp
  then show ?case using one rest by simp
qed

lemma drain_head_differs:
  "L \<noteq> [] \<Longrightarrow> seq (hd L) \<noteq> n \<Longrightarrow> drain L n = ([], n, L)"
  by (cases L) auto

lemma reorder_late:
  assumes "seq p < n"
  shows "reorder p n buf = ([], n, sort_key seq (buf @ [p]))"
proof -
  define L where "L = sort_key seq (buf @ [p])"
  have pin: "p \<in> set L" unfolding L_def by simp
  then have ne: "L \<noteq> []" by auto
  have sL: "sorted (map seq L)" unfolding L_def by (rule sorted_sort_key)
  have "seq (hd L) \<le> seq p" using sL pin ne by (cases L) auto
  with assms have "seq (hd L) \<noteq> n" by simp
  from drain_head_differs[OF ne this] show ?thesis by (simp add: reorder_def L_def)
qed

lemma reorder_seqs:
  assumes "reorder p n buf = (d, n', buf')"
  shows "map seq d = [n..n' - 1] \<and> n \<le> n'"
  using drain_split[of "sort_key seq (buf @ [p])" n d n' buf'] assms by (simp add: reorder_def)

lemma upto_append: "(i::int) \<le> j \<Longrightarrow> j \<le> k \<Longrightarrow> [i..j - 1] @ [j..k - 1] = [i..k - 1]"
proof (cases "j = k")
  case True
  then show ?thesis by simp
next
  case False
  assume "i \<le> j" "j \<le> k"
  with False have "j \<le> k - 1" by simp
  with \<open>i \<le> j\<close> show ?thesis using upto_split1[of i j "k - 1"] by simp
qed

lemma feed_seqs:
  "feed ps (out0, n, buf) = (out, n', buf') \<Longrightarrow> map seq out0 = [0..n - 1] \<Longrightarrow> 0 \<le> n \<Longrightarrow>
     map seq out = [0..n' - 1] \<and> n \<le> n'"
proof (induction ps arbitrary: out0 n buf)
  case Nil
  then show ?case by simp
next
  case (Cons p ps)
  obtain d n1 b1 where ro: "reorder p n buf = (d, n1, b1)" by (cases "reorder p n buf") auto
  from reorder_seqs[OF ro] have sd: "map seq d = [n..n1 - 1]" and nn: "n \<le> n1" by simp_all
  have f: "feed ps (out0 @ d, n1, b1) = (out, n', buf')" using Cons.prems(1) ro by simp
  have "map seq (out0 @ d) = [0..n1 - 1]"
    using Cons.prems(2) sd upto_append[OF Cons.prems(3) nn] by simp
  from Cons.IH[OF f this] Cons.prems(3) nn show ?case by simp
qed


lemma reorder_mset:
  assumes "reorder p n buf = (d, n', buf')"
  shows "mset (d @ buf') = mset buf + {#p#}"
proof -
  from assms have "drain (sort_key seq (buf @ [p])) n = (d, n', buf')" by (simp add: reorder_def)
  from drain_split[OF this] have "sort_key seq (buf @ [p]) = d @ buf'" by simp
  then have "mset (d @ buf') = mset (sort_key seq (buf @ [p]))" by simp
  then show ?thesis by simp
qed

lemma feed_mset:
  "feed ps (out0, n, buf) = (out, n', buf') \<Longrightarrow> mset (out @ buf') = mset (out0 @ buf) + mset ps"
proof (induction ps arbitrary: out0 n buf)
  case Nil
  then show ?case by simp
next
  case (Cons p ps)
  obtain d n1 b1 where ro: "reorder p n buf = (d, n1, b1)" by (cases "reorder p n buf") auto
  have f: "feed ps (out0 @ d, n1, b1) = (out, n', buf')" using Cons.prems(1) ro by simp
  from Cons.IH[OF f] have "mset (out @ buf') = mset out0 + mset (d @ b1) + mset ps" by simp
  then show ?case using reorder_mset[OF ro] by simp
qed

section \<open>The identifier pattern: proofs\<close>

lemma hex_n_length: "hex_n n s = Some r \<Longrightarrow> length s = n + length r"
  by (induction n s rule: hex_n.induct) (auto split: if_splits)

lemma dash_length: "dash s = Some r \<Longrightarrow> length s = 1 + length r"
  by (cases s) (auto split: if_splits)

lemma dash_hex_length: "dash_hex n s = Some r \<Longrightarrow> length s = Suc n + length r"
  by (auto simp: dash_hex_def split: option.splits dest!: hex_n_length dash_length)

lemma PATTERN_UUID_at_length:
  assumes "PATTERN_UUID_at s = Some r"
  shows "length s = 36 + length r"
proof -
  from assms obtain r1 r2 r3 r4 where
    "hex_n 8 s = Some r1" "dash_hex 4 r1 = Some r2" "dash_hex 4 r2 = Some r3"
    "dash_hex 4 r3 = Some r4" "dash_hex 12 r4 = Some r"
    unfolding PATTERN_UUID_at_def bind_eq_Some_conv by blast
  then have "length s = 8 + length r1" "length r1 = Suc 4 + length r2"
    "length r2 = Suc 4 + length r3" "length r3 = Suc 4 + length r4" "length r4 = Suc 12 + length r"
    by (simp_all only: hex_n_length dash_hex_length)
  then show ?thesis by simp
qed

lemma uuid_shaped_length: "uuid_shaped s \<Longrightarrow> length s = 36"
  using PATTERN_UUID_at_length[of s "[]"] by (simp add: uuid_shaped_def)

lemma uuid_shaped_test: "uuid_shaped s \<Longrightarrow> PATTERN_UUID_test s"
  by (cases s) (auto simp: uuid_shaped_def)

lemma hex_n_Cons:
  "0 < n \<Longrightarrow> hex_n n (c # cs) = (if hex_digit c then hex_n (n - 1) cs else None)"
  by (cases n) auto

lemma uuid_shaped_ones: "uuid_shaped ''11111111-1111-1111-1111-111111111111''"
  by (simp add: uuid_shaped_def PATTERN_UUID_at_def dash_hex_def hex_digit_def hex_n_Cons)

lemma uuid_shaped_twos: "uuid_shaped ''22222222-2222-2222-2222-222222222222''"
  by (simp add: uuid_shaped_def PATTERN_UUID_at_def dash_hex_def hex_digit_def hex_n_Cons)

lemma uuid_shaped_threes: "uuid_shaped ''33333333-3333-3333-3333-333333333333''"
  by (simp add: uuid_shaped_def PATTERN_UUID_at_def dash_hex_def hex_digit_def hex_n_Cons)

lemma not_uuid_shaped_x: "\<not> uuid_shaped ''x11111111-1111-1111-1111-111111111111''"
  by (simp add: uuid_shaped_def PATTERN_UUID_at_def dash_hex_def hex_digit_def hex_n_Cons)

lemma PATTERN_UUID_test_x: "PATTERN_UUID_test ''x11111111-1111-1111-1111-111111111111''"
  by (simp add: PATTERN_UUID_at_def dash_hex_def hex_digit_def hex_n_Cons)

section \<open>Dispatch of control messages: proofs\<close>

lemma topicTtyIn_not_control:
  "topicTtyIn pre tid sid \<noteq> topicCreate pre tid" "topicTtyIn pre tid sid \<noteq> topicRemove pre tid"
proof -
  have "last (topicTtyIn pre tid sid) = CHR ''n''" by (simp add: topicTtyIn_def)
  moreover have "last (topicCreate pre tid) = CHR ''e''" "last (topicRemove pre tid) = CHR ''e''"
    by (simp_all add: topicCreate_def topicRemove_def)
  ultimately show "topicTtyIn pre tid sid \<noteq> topicCreate pre tid" "topicTtyIn pre tid sid \<noteq> topicRemove pre tid"
    by auto
qed

lemma shell_onMessage_other: "t \<noteq> tin \<Longrightarrow> shell_onMessage tin t msg sh = Inr (sh, [])"
  by (simp add: shell_onMessage_def)

lemma shell_listeners_control:
  assumes "\<And>sid. t \<noteq> topicTtyIn (arg_prefix cfg) (arg_id cfg) sid"
  shows "shell_listeners cfg t msg ks st = Inr (st, [])"
proof (induction ks)
  case Nil
  then show ?case by simp
next
  case (Cons k ks)
  show ?case
  proof (cases "map_of (shells st) k")
    case None
    then show ?thesis using Cons by simp
  next
    case (Some sh)
    then have "AList.update k sh (shells st) = shells st" by (rule update_triv)
    then show ?thesis using Some Cons assms[of "key_text k"] by (simp add: shell_onMessage_other)
  qed
qed

lemma on_message_create:
  "on_message cfg (topicCreate (arg_prefix cfg) (arg_id cfg)) msg st = ttyCreate cfg msg st"
proof -
  let ?t = "topicCreate (arg_prefix cfg) (arg_id cfg)"
  have ne: "\<And>sid. ?t \<noteq> topicTtyIn (arg_prefix cfg) (arg_id cfg) sid"
    using topicTtyIn_not_control(1) by metis
  show ?thesis
    by (auto simp: on_message_def control_onMessage_def shell_listeners_control[OF ne]
        split: sum.splits)
qed

lemma topicCreate_not_Remove: "topicCreate pre tid \<noteq> topicRemove pre tid"
  by (simp add: topicCreate_def topicRemove_def)

lemma on_message_remove:
  "on_message cfg (topicRemove (arg_prefix cfg) (arg_id cfg)) msg st = ttyRemove cfg msg st"
proof -
  let ?t = "topicRemove (arg_prefix cfg) (arg_id cfg)"
  have ne: "\<And>sid. ?t \<noteq> topicTtyIn (arg_prefix cfg) (arg_id cfg) sid"
    using topicTtyIn_not_control(2) by metis
  have "?t \<noteq> topicCreate (arg_prefix cfg) (arg_id cfg)" using topicCreate_not_Remove by metis
  then show ?thesis
    by (auto simp: on_message_def control_onMessage_def shell_listeners_control[OF ne]
        split: sum.splits)
qed

section \<open>Rejected input: proofs\<close>

lemma invalid_params_dropped:
  "\<not> VALIDATOR_CREATE params \<Longrightarrow>
     ttyCreate cfg (Wellformed params) st = Inr (st, [Log LvError ''invalid params''])
   \<and> ttyRemove cfg (Wellformed params) st = Inr (st, [Log LvError ''invalid params''])"
  by (simp add: ttyCreate_def ttyRemove_def VALIDATOR_REMOVE_def)

lemma connection_rejected:
  "\<not> VALIDATOR_TARGET t \<Longrightarrow> connection pre fresh t = (None, [Log LvError ''invalid target id'', WsClose])"
  by (simp add: connection_def)

lemma connection_missing_target:
  "connection pre fresh None = (None, [Log LvError ''invalid target id'', WsClose])"
  by (simp add: connection_def VALIDATOR_TARGET_def)

section \<open>The session registry: proofs\<close>

lemma update_absent: "map_of al k = None \<Longrightarrow> AList.update k v al = al @ [(k, v)]"
  by (induction al) (auto split: if_splits)

lemma update_present_keys:
  "map_of al k = Some v \<Longrightarrow> map fst (AList.update k v' al) = map fst al"
  by (induction al) (auto split: if_splits)

lemma update_present_bound:
  "map_of al k = Some v \<Longrightarrow> process v' = process v \<Longrightarrow>
     map (\<lambda>e. (process (snd e), fst e)) (AList.update k v' al) = map (\<lambda>e. (process (snd e), fst e)) al"
  by (induction al) (auto split: if_splits)

lemma shell_onMessage_process:
  "shell_onMessage tin t msg sh = Inr (sh', es) \<Longrightarrow>
     process sh' = process sh \<and> list_all (\<lambda>e. \<exists>d. e = Write (process sh) d) es"
  by (auto simp: shell_onMessage_def list_all_iff split: if_splits sum.splits option.splits prod.splits)

lemma shell_listeners_frame:
  "shell_listeners cfg t msg ks st = Inr (st', es) \<Longrightarrow>
     procs st' = procs st \<and> spawned st' = spawned st \<and> bound st' = bound st \<and>
     map fst (shells st') = map fst (shells st) \<and> list_all (\<lambda>e. \<exists>p d. e = Write p d) es"
proof (induction ks arbitrary: st st' es)
  case Nil
  then show ?case by simp
next
  case (Cons k ks)
  show ?case
  proof (cases "map_of (shells st) k")
    case None
    with Cons.prems have "shell_listeners cfg t msg ks st = Inr (st', es)" by simp
    from Cons.IH[OF this] show ?thesis .
  next
    case (Some sh)
    let ?tin = "topicTtyIn (arg_prefix cfg) (arg_id cfg) (key_text k)"
    from Cons.prems Some obtain sh' es1 where one: "shell_onMessage ?tin t msg sh = Inr (sh', es1)"
      by (cases "shell_onMessage ?tin t msg sh") auto
    let ?st1 = "st\<lparr>shells := AList.update k sh' (shells st)\<rparr>"
    from Cons.prems Some one obtain es2 where rest: "shell_listeners cfg t msg ks ?st1 = Inr (st', es2)"
      and es: "es = es1 @ es2"
      by (cases "shell_listeners cfg t msg ks ?st1") auto
    from shell_onMessage_process[OF one] have pr: "process sh' = process sh"
      and w1: "list_all (\<lambda>e. \<exists>d. e = Write (process sh) d) es1" by simp_all
    have b1: "bound ?st1 = bound st" using update_present_bound[OF Some pr] by (simp add: bound_def)
    have k1: "map fst (shells ?st1) = map fst (shells st)" using update_present_keys[OF Some] by simp
    have w1': "list_all (\<lambda>e. \<exists>p d. e = Write p d) es1" using w1 by (auto simp: list_all_iff)
    from Cons.IH[OF rest] b1 k1 w1' es show ?thesis by simp
  qed
qed

lemma ttyRemove_state: "ttyRemove cfg msg st = Inr (st', es) \<Longrightarrow> st' = st"
  by (auto simp: ttyRemove_def split: sum.splits if_splits option.splits)

lemma ttyCreate_ok:
  assumes ok: "registry_ok st" and c: "ttyCreate cfg msg st = Inr (st', es)"
  shows "registry_ok st'"
proof (cases "st' = st")
  case True
  with ok show ?thesis by simp
next
  case False
  from c False obtain params where p: "JSON_parse msg = Inr params" "VALIDATOR_CREATE params"
    "\<not> has (params_id params) (shells st)"
    by (auto simp: ttyCreate_def split: sum.splits if_splits)
  define k where "k = params_id params"
  define sh where "sh = \<lparr>process = spawned st, seqIn = 0, seqOut = 0, bufferIn = []\<rparr>"
  have st': "st' = st\<lparr>shells := AList.update k sh (shells st), procs := procs st @ [(spawned st, k)],
      spawned := Suc (spawned st)\<rparr>"
    using c p by (simp add: ttyCreate_def Let_def k_def sh_def)
  have absent: "map_of (shells st) k = None" using p(3) by (simp add: has_def k_def)
  have upd: "AList.update k sh (shells st) = shells st @ [(k, sh)]" using update_absent[OF absent] .
  from ok have d1: "distinct (map fst (shells st))" and d2: "distinct (map fst (procs st))"
    and b: "bound st = procs st" and lt: "list_all (\<lambda>e. fst e < spawned st) (procs st)"
    by (simp_all add: registry_ok_def)
  have knew: "k \<notin> set (map fst (shells st))" using absent by (simp add: map_of_eq_None_iff)
  have pnew: "spawned st \<notin> set (map fst (procs st))" using lt by (auto simp: list_all_iff)
  have "distinct (map fst (shells st'))" using d1 knew by (simp add: st' upd)
  moreover have "distinct (map fst (procs st'))" using d2 pnew by (simp add: st')
  moreover have "bound st' = procs st'"
  proof -
    have "shells st' = shells st @ [(k, sh)]" using upd by (simp add: st')
    moreover have "process sh = spawned st" by (simp add: sh_def)
    moreover have "procs st' = procs st @ [(spawned st, k)]" by (simp add: st')
    ultimately show ?thesis using b by (simp add: bound_def)
  qed
  moreover have "list_all (\<lambda>e. fst e < spawned st') (procs st')"
    using lt by (auto simp: st' list_all_iff)
  ultimately show ?thesis by (simp add: registry_ok_def)
qed

lemma control_onMessage_ok:
  "registry_ok st \<Longrightarrow> control_onMessage cfg t msg st = Inr (st', es) \<Longrightarrow> registry_ok st'"
  by (auto simp: control_onMessage_def split: if_splits dest: ttyCreate_ok ttyRemove_state)

lemma registry_ok_frame:
  "registry_ok st \<Longrightarrow> procs st' = procs st \<Longrightarrow> spawned st' = spawned st \<Longrightarrow>
     bound st' = bound st \<Longrightarrow> map fst (shells st') = map fst (shells st) \<Longrightarrow> registry_ok st'"
  by (simp add: registry_ok_def)

lemma on_message_ok:
  assumes "registry_ok st" and "on_message cfg t msg st = Inr (st', es)"
  shows "registry_ok st'"
proof -
  from assms(2) obtain st1 es1 es2 where c: "control_onMessage cfg t msg st = Inr (st1, es1)"
    and l: "shell_listeners cfg t msg (map fst (shells st)) st1 = Inr (st', es2)"
    by (auto simp: on_message_def split: sum.splits)
  have "registry_ok st1" using control_onMessage_ok[OF assms(1) c] .
  with shell_listeners_frame[OF l] show ?thesis by (intro registry_ok_frame[of st1 st']) simp_all
qed

lemma delete_filter: "AList.delete k al = filter (\<lambda>e. fst e \<noteq> k) al"
  by (induction al) auto

lemma exit_ok:
  assumes ok: "registry_ok st" and live: "map_of (procs st) pid = Some k"
  shows "registry_ok (fst (onExit cfg k (st\<lparr>procs := AList.delete pid (procs st)\<rparr>)))"
proof -
  let ?f = "\<lambda>e. (process (snd e), fst e)"
  from ok have d1: "distinct (map fst (shells st))" and d2: "distinct (map fst (procs st))"
    and b: "map ?f (shells st) = procs st" and lt: "list_all (\<lambda>e. fst e < spawned st) (procs st)"
    by (simp_all add: registry_ok_def bound_def)
  have pk: "(pid, k) \<in> set (procs st)" using live by (rule map_of_SomeD)
  have same: "(fst e \<noteq> k) = (process (snd e) \<noteq> pid)" if e: "e \<in> set (shells st)" for e
  proof -
    have fe: "(process (snd e), fst e) \<in> set (procs st)" using e b by (metis (no_types, lifting) image_eqI set_map)
    show ?thesis
    proof
      assume ne: "fst e \<noteq> k"
      show "process (snd e) \<noteq> pid"
      proof
        assume "process (snd e) = pid"
        with fe have "(pid, fst e) \<in> set (procs st)" by simp
        with pk d2 have "fst e = k" by (metis eq_key_imp_eq_value)
        with ne show False by simp
      qed
    next
      assume np: "process (snd e) \<noteq> pid"
      show "fst e \<noteq> k"
      proof
        assume ek: "fst e = k"
        from pk b obtain e0 where e0: "e0 \<in> set (shells st)" "?f e0 = (pid, k)"
          by (metis (no_types, lifting) image_iff set_map)
        then have "fst e0 = k" "process (snd e0) = pid" by simp_all
        have "e = (k, snd e)" using ek by (metis prod.collapse)
        moreover have "e0 = (k, snd e0)" using \<open>fst e0 = k\<close> by (metis prod.collapse)
        ultimately have "snd e = snd e0" using e e0(1) d1 by (metis eq_key_imp_eq_value)
        with \<open>process (snd e0) = pid\<close> np show False by simp
      qed
    qed
  qed
  have "map ?f (AList.delete k (shells st)) = map ?f (filter (\<lambda>e. fst e \<noteq> k) (shells st))"
    by (simp add: delete_filter)
  also have "filter (\<lambda>e. fst e \<noteq> k) (shells st) = filter (\<lambda>e. process (snd e) \<noteq> pid) (shells st)"
    using same by (intro filter_cong) auto
  also have "map ?f (filter (\<lambda>e. process (snd e) \<noteq> pid) (shells st)) =
      filter (\<lambda>e. fst e \<noteq> pid) (map ?f (shells st))"
    by (simp add: filter_map comp_def)
  also have "\<dots> = AList.delete pid (procs st)" using b by (simp add: delete_filter)
  finally have b': "map ?f (AList.delete k (shells st)) = AList.delete pid (procs st)" .
  have "distinct (map fst (AList.delete k (shells st)))" using d1 by (rule distinct_delete)
  moreover have "distinct (map fst (AList.delete pid (procs st)))" using d2 by (rule distinct_delete)
  moreover have "list_all (\<lambda>e. fst e < spawned st) (AList.delete pid (procs st))"
    using lt by (auto simp: list_all_iff delete_filter)
  ultimately show ?thesis using b' by (simp add: onExit_def registry_ok_def bound_def Let_def)
qed

lemma onData_ok:
  assumes ok: "registry_ok st"
  shows "registry_ok (fst (onData cfg k chunk st))"
proof (cases "map_of (shells st) k")
  case None
  with ok show ?thesis by (simp add: onData_def)
next
  case (Some sh)
  let ?st' = "st\<lparr>shells := AList.update k (sh\<lparr>seqOut := seqOut sh + 1\<rparr>) (shells st)\<rparr>"
  have "bound ?st' = bound st"
    using update_present_bound[OF Some, of "sh\<lparr>seqOut := seqOut sh + 1\<rparr>"] by (simp add: bound_def)
  moreover have "map fst (shells ?st') = map fst (shells st)"
    using update_present_keys[OF Some] by simp
  ultimately have "registry_ok ?st'" using ok by (intro registry_ok_frame[of st ?st']) simp_all
  then show ?thesis using Some by (simp add: onData_def)
qed

lemma step_ok:
  assumes "registry_ok st" and "step cfg ev st = Inr (st', es)"
  shows "registry_ok st'"
proof (cases ev)
  case Connect
  with assms show ?thesis by (simp add: step_def)
next
  case (Message t msg)
  with assms show ?thesis using on_message_ok[of st cfg t msg st' es] by (simp add: step_def)
next
  case (Exit pid)
  show ?thesis
  proof (cases "map_of (procs st) pid")
    case None
    with assms Exit show ?thesis by (simp add: step_def)
  next
    case (Some k)
    with assms(2) Exit have "st' = fst (onExit cfg k (st\<lparr>procs := AList.delete pid (procs st)\<rparr>))"
      by (auto simp: step_def)
    then show ?thesis using exit_ok[OF assms(1) Some] by simp
  qed
next
  case (Data pid chunk)
  show ?thesis
  proof (cases "map_of (procs st) pid")
    case None
    with assms Data show ?thesis by (simp add: step_def)
  next
    case (Some k)
    with assms(2) Data have "st' = fst (onData cfg k chunk st)" by (auto simp: step_def)
    then show ?thesis using onData_ok[OF assms(1)] by simp
  qed
qed

lemma run_ok:
  "registry_ok st \<Longrightarrow> run cfg evs st = Inr (st', es) \<Longrightarrow> registry_ok st'"
proof (induction evs arbitrary: st es)
  case Nil
  then show ?case by simp
next
  case (Cons ev evs)
  from Cons.prems(2) obtain st1 es1 es2 where s: "step cfg ev st = Inr (st1, es1)"
    and r: "run cfg evs st1 = Inr (st', es2)"
    by (auto split: sum.splits)
  from Cons.IH[OF step_ok[OF Cons.prems(1) s] r] show ?case .
qed

lemma registry_ok_init: "registry_ok target_init"
  by (simp add: registry_ok_def target_init_def bound_def)

section \<open>What the handlers leave alone: proofs\<close>

lemma update_keeps_keys: "set (map fst al) \<subseteq> set (map fst (AList.update k v al))"
  by (auto simp: update_keys)

lemma ttyCreate_keeps:
  assumes "ttyCreate cfg msg st = Inr (st', es)"
  shows "set (map fst (shells st)) \<subseteq> set (map fst (shells st')) \<and>
         list_all (\<lambda>e. \<forall>t. e \<noteq> Unsubscribe t \<and> e \<noteq> Off_message t) es"
proof (cases "st' = st")
  case True
  with assms show ?thesis
    by (auto simp: ttyCreate_def ttyList_def Let_def split: sum.splits if_splits)
next
  case False
  with assms obtain k sh where "shells st' = AList.update k sh (shells st)"
    and "list_all (\<lambda>e. \<forall>t. e \<noteq> Unsubscribe t \<and> e \<noteq> Off_message t) es"
    by (auto simp: ttyCreate_def ttyList_def Let_def split: sum.splits if_splits)
  then show ?thesis using update_keeps_keys[of "shells st" k sh] by simp
qed

lemma ttyRemove_keeps:
  assumes "ttyRemove cfg msg st = Inr (st', es)"
  shows "st' = st \<and> list_all (\<lambda>e. \<forall>t. e \<noteq> Unsubscribe t \<and> e \<noteq> Off_message t) es"
  using assms
  by (auto simp: ttyRemove_def split: sum.splits if_splits option.splits)

lemma on_message_keeps:
  assumes "on_message cfg t msg st = Inr (st', es)"
  shows "set (map fst (shells st)) \<subseteq> set (map fst (shells st')) \<and>
         list_all (\<lambda>e. \<forall>t. e \<noteq> Unsubscribe t \<and> e \<noteq> Off_message t) es"
proof -
  from assms obtain st1 es1 es2 where c: "control_onMessage cfg t msg st = Inr (st1, es1)"
    and l: "shell_listeners cfg t msg (map fst (shells st)) st1 = Inr (st', es2)"
    and es: "es = es1 @ es2"
    by (auto simp: on_message_def split: sum.splits)
  have c': "set (map fst (shells st)) \<subseteq> set (map fst (shells st1)) \<and>
         list_all (\<lambda>e. \<forall>t. e \<noteq> Unsubscribe t \<and> e \<noteq> Off_message t) es1"
    using c ttyCreate_keeps[of cfg msg st st1 es1] ttyRemove_keeps[of cfg msg st st1 es1]
    by (auto simp: control_onMessage_def split: if_splits)
  from shell_listeners_frame[OF l] have k: "map fst (shells st') = map fst (shells st1)"
    and w: "list_all (\<lambda>e. \<exists>p d. e = Write p d) es2" by simp_all
  have "list_all (\<lambda>e. \<forall>t. e \<noteq> Unsubscribe t \<and> e \<noteq> Off_message t) es2"
    using w by (auto simp: list_all_iff)
  with c' k es show ?thesis by simp
qed

lemma step_keeps:
  assumes "step cfg ev st = Inr (st', es)" and "\<forall>p. ev \<noteq> Exit p"
  shows "set (map fst (shells st)) \<subseteq> set (map fst (shells st')) \<and>
         list_all (\<lambda>e. \<forall>t. e \<noteq> Unsubscribe t \<and> e \<noteq> Off_message t) es"
proof (cases ev)
  case Connect
  with assms show ?thesis by (auto simp: step_def on_connect_def ttyList_def)
next
  case (Message t msg)
  with assms show ?thesis using on_message_keeps[of cfg t msg st st' es] by (simp add: step_def)
next
  case (Exit pid)
  with assms show ?thesis by simp
next
  case (Data pid chunk)
  show ?thesis
  proof (cases "st' = st")
    case True
    with assms Data show ?thesis
      by (auto simp: step_def onData_def split: option.splits)
  next
    case False
    with assms Data obtain k sh where "shells st' = AList.update k sh (shells st)"
      and "list_all (\<lambda>e. \<forall>t. e \<noteq> Unsubscribe t \<and> e \<noteq> Off_message t) es"
      by (auto simp: step_def onData_def split: option.splits)
    then show ?thesis using update_keeps_keys[of "shells st" k sh] by simp
  qed
qed

lemma VALIDATOR_CREATE_twos:
  "VALIDATOR_CREATE (JObj [(''id'', JStr ''22222222-2222-2222-2222-222222222222'')])"
  using uuid_shaped_test[OF uuid_shaped_twos] by simp

lemma distinct_single_entry:
  "distinct (map fst al) \<Longrightarrow> map_of al k = Some v \<Longrightarrow> filter (\<lambda>e. fst e = k) al = [(k, v)]"
proof (induction al)
  case Nil
  then show ?case by simp
next
  case (Cons e al)
  show ?case
  proof (cases "fst e = k")
    case True
    with Cons.prems have "e = (k, v)" by (cases e) auto
    moreover have "k \<notin> fst ` set al" using Cons.prems(1) True by auto
    then have "filter (\<lambda>e. fst e = k) al = []" by (auto simp: filter_empty_conv)
    ultimately show ?thesis by simp
  next
    case False
    with Cons show ?thesis by (cases e) auto
  qed
qed

section \<open>Heartbeat: proofs\<close>

lemma tick_alive:
  "heartbeat c \<Longrightarrow> isAlive c \<Longrightarrow> ws_step pre Tick c = Inr (c\<lparr>isAlive := False\<rparr>, [WsPing])"
  by (simp add: ws_step_def heartbeat_tick_def)

lemma tick_dead:
  "heartbeat c \<Longrightarrow> \<not> isAlive c \<Longrightarrow> is_open c \<Longrightarrow>
     ws_step pre Tick c =
       Inr (c\<lparr>heartbeat := False, listening := False, is_open := False\<rparr>,
            [WsTerminate, Log LvInfo ''disconnected'', ClearInterval,
             Unsubscribe (topicTtyOut pre (targetId c) (ttyId c)),
             Off_message (topicTtyOut pre (targetId c) (ttyId c)),
             Publish (topicRemove pre (targetId c)) (Wellformed (JObj [(''id'', JStr (ttyId c))])) (Some 1)])"
  by (simp add: ws_step_def heartbeat_tick_def closing_def on_close_def JSON_stringify_def)

lemma tick_off: "\<not> heartbeat c \<Longrightarrow> ws_step pre Tick c = Inr (c, [])"
  by (simp add: ws_step_def)

lemma ws_message_step:
  "ws_step pre (WsMessage d) c =
     (if is_open c
      then Inr (c\<lparr>m_seqIn := m_seqIn c + 1\<rparr>,
                [Publish (topicTtyIn pre (targetId c) (ttyId c))
                   (Wellformed (packet_json \<lparr>seq = m_seqIn c, data = d\<rparr>)) None])
      else Inr (c, []))"
  by (simp add: ws_step_def ws_message_def JSON_stringify_def)

lemma onMessage_frame:
  assumes "onMessage pre t msg c = Inr (c1, es1)"
  shows "heartbeat c1 = heartbeat c \<and> listening c1 = listening c \<and> is_open c1 = is_open c
       \<and> isAlive c1 = isAlive c \<and> targetId c1 = targetId c \<and> ttyId c1 = ttyId c
       \<and> list_all (\<lambda>e. \<exists>d. e = WsSend d) es1"
  using assms
  by (auto simp: onMessage_def list_all_iff split: if_splits sum.splits option.splits prod.splits)

lemma count_list_sends:
  "list_all (\<lambda>e. \<exists>d. e = WsSend d) es \<Longrightarrow>
     count_list es WsTerminate = 0 \<and> count_list es (Publish a b q) = 0"
  by (induction es) auto

lemma peer_close_step:
  "is_open c \<Longrightarrow>
     ws_step pre PeerClose c =
       Inr (c\<lparr>heartbeat := False, listening := False, is_open := False\<rparr>,
            [Log LvInfo ''disconnected'', ClearInterval,
             Unsubscribe (topicTtyOut pre (targetId c) (ttyId c)),
             Off_message (topicTtyOut pre (targetId c) (ttyId c)),
             Publish (topicRemove pre (targetId c)) (Wellformed (JObj [(''id'', JStr (ttyId c))])) (Some 1)])"
  by (simp add: ws_step_def closing_def on_close_def JSON_stringify_def)

lemma closed_run:
  "\<not> heartbeat c \<Longrightarrow> \<not> listening c \<Longrightarrow> \<not> is_open c \<Longrightarrow> ws_run pre evs c = Inr (c, [])"
proof (induction evs)
  case Nil
  then show ?case by simp
next
  case (Cons ev evs)
  then have "ws_step pre ev c = Inr (c, [])" by (cases ev) (simp_all add: ws_step_def)
  with Cons show ?case by simp
qed

lemma silent_run:
  assumes "heartbeat c" "listening c" "is_open c"
    and "list_all (\<lambda>ev. ev \<noteq> Pong) evs"
    and "ws_run pre evs c = Inr (c', es)"
  shows "count_list es WsTerminate =
           (if (if isAlive c then 2 else 1) \<le> count_list (takeWhile (\<lambda>ev. ev \<noteq> PeerClose) evs) Tick
            then 1 else 0)
       \<and> count_list es (Publish (topicRemove pre (targetId c)) (Wellformed (JObj [(''id'', JStr (ttyId c))])) (Some 1))
           = (if (if isAlive c then 2 else 1) \<le> count_list evs Tick \<or> PeerClose \<in> set evs then 1 else 0)
       \<and> is_open c' = (count_list evs Tick < (if isAlive c then 2 else 1) \<and> PeerClose \<notin> set evs)"
  using assms
proof (induction evs arbitrary: c c' es)
  case Nil
  then show ?case by auto
next
  case (Cons ev evs)
  let ?R = "\<lambda>c. Publish (topicRemove pre (targetId c)) (Wellformed (JObj [(''id'', JStr (ttyId c))])) (Some 1)"
  from Cons.prems(4) have ok: "list_all (\<lambda>ev. ev \<noteq> Pong) evs" and np: "ev \<noteq> Pong" by simp_all
  from Cons.prems(5) obtain c1 es1 es2 where s: "ws_step pre ev c = Inr (c1, es1)"
    and r: "ws_run pre evs c1 = Inr (c', es2)" and es: "es = es1 @ es2"
    by (auto split: sum.splits)
  show ?case
  proof (cases ev)
    case Tick
    show ?thesis
    proof (cases "isAlive c")
      case True
      from s Tick True Cons.prems(1) have c1: "c1 = c\<lparr>isAlive := False\<rparr>" and e1: "es1 = [WsPing]"
        by (simp_all add: tick_alive)
      have h: "heartbeat c1" "listening c1" "is_open c1" "\<not> isAlive c1"
        "targetId c1 = targetId c" "ttyId c1 = ttyId c"
        using Cons.prems(1-3) by (simp_all add: c1)
      from Cons.IH[OF h(1-3) ok r] h(4-6) True Tick es e1 show ?thesis by auto
    next
      case False
      from tick_dead[OF Cons.prems(1) False Cons.prems(3), of pre] s Tick
      have c1: "c1 = c\<lparr>heartbeat := False, listening := False, is_open := False\<rparr>"
        and e1: "es1 = [WsTerminate, Log LvInfo ''disconnected'', ClearInterval,
             Unsubscribe (topicTtyOut pre (targetId c) (ttyId c)),
             Off_message (topicTtyOut pre (targetId c) (ttyId c)), ?R c]"
        by simp_all
      have "ws_run pre evs c1 = Inr (c1, [])" by (rule closed_run) (simp_all add: c1)
      with r have "c' = c1" "es2 = []" by simp_all
      then show ?thesis using False Tick es e1 c1 by simp
    qed
  next
    case Pong
    with np show ?thesis by simp
  next
    case (WsMessage d)
    from s WsMessage Cons.prems(3) have c1: "c1 = c\<lparr>m_seqIn := m_seqIn c + 1\<rparr>"
      and e1: "es1 = [Publish (topicTtyIn pre (targetId c) (ttyId c))
                   (Wellformed (packet_json \<lparr>seq = m_seqIn c, data = d\<rparr>)) None]"
      by (simp_all add: ws_message_step)
    have h: "heartbeat c1" "listening c1" "is_open c1" "isAlive c1 = isAlive c"
      "targetId c1 = targetId c" "ttyId c1 = ttyId c"
      using Cons.prems(1-3) by (simp_all add: c1)
    from Cons.IH[OF h(1-3) ok r] h(4-6) WsMessage es e1 show ?thesis by simp
  next
    case (MqttMessage t msg)
    from s MqttMessage Cons.prems(2) have om: "onMessage pre t msg c = Inr (c1, es1)"
      by (simp add: ws_step_def)
    from onMessage_frame[OF om] Cons.prems(1-3)
    have h: "heartbeat c1" "listening c1" "is_open c1" "isAlive c1 = isAlive c"
      "targetId c1 = targetId c" "ttyId c1 = ttyId c"
      and snd: "list_all (\<lambda>e. \<exists>d. e = WsSend d) es1" by simp_all
    from count_list_sends[OF snd]
    have z: "count_list es1 WsTerminate = 0" "count_list es1 (?R c) = 0" by simp_all
    from Cons.IH[OF h(1-3) ok r] h(4-6) MqttMessage es z show ?thesis by simp
  next
    case PeerClose
    from peer_close_step[OF Cons.prems(3), of pre] s PeerClose
    have c1: "c1 = c\<lparr>heartbeat := False, listening := False, is_open := False\<rparr>"
      and e1: "es1 = [Log LvInfo ''disconnected'', ClearInterval,
             Unsubscribe (topicTtyOut pre (targetId c) (ttyId c)),
             Off_message (topicTtyOut pre (targetId c) (ttyId c)), ?R c]"
      by simp_all
    have "ws_run pre evs c1 = Inr (c1, [])" by (rule closed_run) (simp_all add: c1)
    with r have "c' = c1" "es2 = []" by simp_all
    then show ?thesis using PeerClose es e1 c1 by simp
  qed
qed

lemma ws_step_ids:
  "ws_step pre ev c = Inr (c1, es1) \<Longrightarrow> targetId c1 = targetId c \<and> ttyId c1 = ttyId c"
  by (cases ev)
    (auto simp: ws_step_def heartbeat_tick_def closing_def on_close_def on_pong_def ws_message_def
      split: if_splits dest: onMessage_frame)

lemma readable_step:
  assumes "readable (topicTtyOut pre (targetId c) (ttyId c)) ev"
  shows "\<exists>c1 es1. ws_step pre ev c = Inr (c1, es1)"
proof (cases ev)
  case (MqttMessage t msg)
  show ?thesis
  proof (cases "listening c \<and> t = topicTtyOut pre (targetId c) (ttyId c)")
    case False
    then show ?thesis using MqttMessage by (auto simp: ws_step_def onMessage_def)
  next
    case True
    with assms MqttMessage obtain j p where "msg = Wellformed j" "as_packet j = Some p"
      by (cases msg) (auto simp: readable_def)
    then show ?thesis using MqttMessage True
      by (auto simp: ws_step_def onMessage_def split: prod.splits)
  qed
qed (auto simp: ws_step_def heartbeat_tick_def closing_def on_close_def split: prod.splits)

lemma readable_run:
  "list_all (readable (topicTtyOut pre (targetId c) (ttyId c))) evs \<Longrightarrow>
     \<exists>c' es. ws_run pre evs c = Inr (c', es)"
proof (induction evs arbitrary: c)
  case Nil
  then show ?case by simp
next
  case (Cons ev evs)
  from Cons.prems have rd: "readable (topicTtyOut pre (targetId c) (ttyId c)) ev"
    and rest: "list_all (readable (topicTtyOut pre (targetId c) (ttyId c))) evs" by simp_all
  from readable_step[OF rd] obtain c1 es1 where s: "ws_step pre ev c = Inr (c1, es1)" by blast
  from ws_step_ids[OF s] rest
  have "list_all (readable (topicTtyOut pre (targetId c1) (ttyId c1))) evs" by simp
  from Cons.IH[OF this] obtain c' es where "ws_run pre evs c1 = Inr (c', es)" by blast
  with s show ?case by simp
qed

lemma connection_accepted:
  assumes "connection pre fresh target_param = (Some c0, es0)"
  shows "\<exists>tid. target_param = Some tid \<and>
     c0 = \<lparr>targetId = tid, ttyId = fresh, isAlive = True, m_seqIn = 0, m_seqOut = 0,
           bufferOut = [], heartbeat = True, listening = True, is_open = True\<rparr> \<and>
     es0 = [Log LvInfo ''connected'',
            Publish (topicCreate pre tid) (Wellformed (JObj [(''id'', JStr fresh)])) (Some 1),
            SetInterval 30000,
            Subscribe (topicTtyOut pre tid fresh),
            On_message (topicTtyOut pre tid fresh)]"
proof -
  from assms have v: "VALIDATOR_TARGET target_param"
    by (auto simp: connection_def split: if_splits)
  then obtain tid where t: "target_param = Some tid"
    by (cases target_param) (auto simp: VALIDATOR_TARGET_def)
  show ?thesis using assms v t
    by (auto simp: connection_def target_text_def Let_def JSON_stringify_def HEARTBEAT_INTERVAL_def)
qed

section \<open>Claims\<close>

text \<open>
  C1. For every \<open>N\<close> and every arrival order of distinct packets with the sequence
  numbers \<open>0, \<dots>, N - 1\<close>, each arriving once, a fresh receiving listener hands the sink
  exactly the packets' data in sequence order, each once: the target's
  \<^verbatim>\<open>shell.onMessage\<close> writes them to the pty process, the master's \<^verbatim>\<open>onMessage\<close> sends
  them to the websocket. Afterwards the counter is \<open>N\<close> and the buffer is empty.
\<close>

theorem reassembly_order:
  assumes "mset (map seq ps) = mset (map int [0..<N])"
    and "seqIn sh = 0" and "bufferIn sh = []"
    and "listening c" and "m_seqOut c = 0" and "bufferOut c = []"
  shows "shell_feed tin tin (map (\<lambda>p. JSON_stringify (packet_json p)) ps) sh =
           Inr (sh\<lparr>seqIn := int N, bufferIn := []\<rparr>,
                map (\<lambda>q. Write (process sh) (data q)) (sort_key seq ps))
       \<and> ws_run pre (map (\<lambda>p. MqttMessage (topicTtyOut pre (targetId c) (ttyId c))
                                (JSON_stringify (packet_json p))) ps) c =
           Inr (c\<lparr>m_seqOut := int N, bufferOut := []\<rparr>,
                map (\<lambda>q. WsSend (data q)) (sort_key seq ps))
       \<and> map seq (sort_key seq ps) = map int [0..<N]
       \<and> mset (sort_key seq ps) = mset ps"
proof -
  from feed_sorted[OF assms(1)] have f: "feed ps ([], 0, []) = (sort_key seq ps, int N, [])"
    and so: "map seq (sort_key seq ps) = map int [0..<N]" by simp_all
  have a: "shell_feed tin tin (map (\<lambda>p. JSON_stringify (packet_json p)) ps) sh =
           Inr (sh\<lparr>seqIn := int N, bufferIn := []\<rparr>,
                map (\<lambda>q. Write (process sh) (data q)) (sort_key seq ps))"
    using shell_feed_feed[of tin ps sh] f assms(2,3) by simp
  have b: "ws_run pre (map (\<lambda>p. MqttMessage (topicTtyOut pre (targetId c) (ttyId c))
                                (JSON_stringify (packet_json p))) ps) c =
           Inr (c\<lparr>m_seqOut := int N, bufferOut := []\<rparr>,
                map (\<lambda>q. WsSend (data q)) (sort_key seq ps))"
    using ws_run_feed[OF assms(4), of pre ps] f assms(5,6) by simp
  show ?thesis using a b so by simp
qed

theorem reassembly_order_witness:
  "mset (map seq [\<lparr>seq = 2, data = ''c''\<rparr>, \<lparr>seq = 0, data = ''a''\<rparr>, \<lparr>seq = 1, data = ''b''\<rparr>])
     = mset (map int [0..<3])
   \<and> shell_feed ''t/in'' ''t/in''
       [Wellformed (JObj [(''seq'', JNum 2), (''data'', JStr ''c'')]),
        Wellformed (JObj [(''seq'', JNum 0), (''data'', JStr ''a'')]),
        Wellformed (JObj [(''seq'', JNum 1), (''data'', JStr ''b'')])]
       \<lparr>process = 7, seqIn = 0, seqOut = 0, bufferIn = []\<rparr> =
     Inr (\<lparr>process = 7, seqIn = 3, seqOut = 0, bufferIn = []\<rparr>,
          [Write 7 ''a'', Write 7 ''b'', Write 7 ''c''])"
proof -
  let ?ps = "[\<lparr>seq = 2, data = ''c''\<rparr>, \<lparr>seq = 0, data = ''a''\<rparr>, \<lparr>seq = 1, data = ''b''\<rparr>]"
  let ?c = "\<lparr>targetId = ''t'', ttyId = ''s'', isAlive = True, m_seqIn = 0, m_seqOut = 0,
             bufferOut = [], heartbeat = True, listening = True, is_open = True\<rparr>"
  have perm: "mset (map seq ?ps) = mset (map int [0..<3])"
    by (simp add: upt_conv_Cons)
  show ?thesis
    using perm reassembly_order[OF perm, of "\<lparr>process = 7, seqIn = 0, seqOut = 0, bufferIn = []\<rparr>"
        ?c "''t/in''" "''p''"]
    by (simp add: JSON_stringify_def packet_json_def)
qed

text \<open>
  C2, as the code has it. A packet whose sequence number is below the counter is not
  handed to the sink by the call and the counter stays; the listener has no discard
  step, so the packet is kept in the buffer, sorted in among the pending packets. For
  every arrival order, duplicates included, the packets handed to the sink carry the
  sequence numbers \<open>0, 1, \<dots>\<close> up to the counter, in order and each once, and every
  arrived packet is either in the sink or in the buffer.
\<close>

theorem late_packet_kept:
  "(seq p < seqIn sh \<longrightarrow>
      shell_onMessage tin tin (JSON_stringify (packet_json p)) sh =
        Inr (sh\<lparr>bufferIn := sort_key seq (bufferIn sh @ [p])\<rparr>, [])
      \<and> p \<in> set (sort_key seq (bufferIn sh @ [p])))
 \<and> (listening c \<and> seq p < m_seqOut c \<longrightarrow>
      ws_step pre (MqttMessage (topicTtyOut pre (targetId c) (ttyId c)) (JSON_stringify (packet_json p))) c =
        Inr (c\<lparr>bufferOut := sort_key seq (bufferOut c @ [p])\<rparr>, [])
      \<and> p \<in> set (sort_key seq (bufferOut c @ [p])))
 \<and> (seqIn sh0 = 0 \<and> bufferIn sh0 = [] \<longrightarrow>
      (\<exists>out sh'. shell_feed tin tin (map (\<lambda>p. JSON_stringify (packet_json p)) ps) sh0 =
                   Inr (sh', map (\<lambda>q. Write (process sh0) (data q)) out)
         \<and> map seq out = [0..seqIn sh' - 1]
         \<and> distinct (map seq out)
         \<and> mset out + mset (bufferIn sh') = mset ps))
 \<and> (listening c0 \<and> m_seqOut c0 = 0 \<and> bufferOut c0 = [] \<longrightarrow>
      (\<exists>out c'. ws_run pre (map (\<lambda>p. MqttMessage (topicTtyOut pre (targetId c0) (ttyId c0))
                                          (JSON_stringify (packet_json p))) ps) c0 =
                   Inr (c', map (\<lambda>q. WsSend (data q)) out)
         \<and> map seq out = [0..m_seqOut c' - 1]
         \<and> distinct (map seq out)
         \<and> mset out + mset (bufferOut c') = mset ps))"
proof -
  have a: "shell_onMessage tin tin (JSON_stringify (packet_json p)) sh =
        Inr (sh\<lparr>bufferIn := sort_key seq (bufferIn sh @ [p])\<rparr>, [])" if "seq p < seqIn sh"
    using reorder_late[OF that, of "bufferIn sh"]
    by (simp add: shell_onMessage_def JSON_stringify_def as_packet_json)
  have b: "ws_step pre (MqttMessage (topicTtyOut pre (targetId c) (ttyId c)) (JSON_stringify (packet_json p))) c =
        Inr (c\<lparr>bufferOut := sort_key seq (bufferOut c @ [p])\<rparr>, [])" if "listening c" "seq p < m_seqOut c"
    using reorder_late[OF that(2), of "bufferOut c"] that(1)
    by (simp add: ws_step_def onMessage_def JSON_stringify_def as_packet_json)
  obtain out n buf where f: "feed ps ([], 0, []) = (out, n, buf)" by (cases "feed ps ([], 0, [])") auto
  from feed_seqs[OF f] have so: "map seq out = [0..n - 1]" by simp
  then have ds: "distinct (map seq out)" by simp
  from feed_mset[OF f] have ms: "mset out + mset buf = mset ps" by simp
  have c: "\<exists>out sh'. shell_feed tin tin (map (\<lambda>p. JSON_stringify (packet_json p)) ps) sh0 =
                   Inr (sh', map (\<lambda>q. Write (process sh0) (data q)) out)
         \<and> map seq out = [0..seqIn sh' - 1] \<and> distinct (map seq out)
         \<and> mset out + mset (bufferIn sh') = mset ps" if "seqIn sh0 = 0" "bufferIn sh0 = []"
  proof -
    have "shell_feed tin tin (map (\<lambda>p. JSON_stringify (packet_json p)) ps) sh0 =
        Inr (sh0\<lparr>seqIn := n, bufferIn := buf\<rparr>, map (\<lambda>q. Write (process sh0) (data q)) out)"
      using shell_feed_feed[of tin ps sh0] f that by simp
    then show ?thesis using so ds ms by (intro exI[of _ out] exI[of _ "sh0\<lparr>seqIn := n, bufferIn := buf\<rparr>"]) simp
  qed
  have d: "\<exists>out c'. ws_run pre (map (\<lambda>p. MqttMessage (topicTtyOut pre (targetId c0) (ttyId c0))
                                          (JSON_stringify (packet_json p))) ps) c0 =
                   Inr (c', map (\<lambda>q. WsSend (data q)) out)
         \<and> map seq out = [0..m_seqOut c' - 1] \<and> distinct (map seq out)
         \<and> mset out + mset (bufferOut c') = mset ps"
    if "listening c0" "m_seqOut c0 = 0" "bufferOut c0 = []"
  proof -
    have "ws_run pre (map (\<lambda>p. MqttMessage (topicTtyOut pre (targetId c0) (ttyId c0))
                                          (JSON_stringify (packet_json p))) ps) c0 =
        Inr (c0\<lparr>m_seqOut := n, bufferOut := buf\<rparr>, map (\<lambda>q. WsSend (data q)) out)"
      using ws_run_feed[OF that(1), of pre ps] f that(2,3) by simp
    then show ?thesis using so ds ms by (intro exI[of _ out] exI[of _ "c0\<lparr>m_seqOut := n, bufferOut := buf\<rparr>"]) simp
  qed
  show ?thesis using a b c d by simp
qed

theorem late_packet_kept_witness:
  "shell_onMessage ''t/in'' ''t/in'' (Wellformed (JObj [(''seq'', JNum 0), (''data'', JStr ''a'')]))
     \<lparr>process = 7, seqIn = 1, seqOut = 0, bufferIn = []\<rparr> =
   Inr (\<lparr>process = 7, seqIn = 1, seqOut = 0, bufferIn = [\<lparr>seq = 0, data = ''a''\<rparr>]\<rparr>, [])
 \<and> ws_step ''p/'' (MqttMessage ''p/t/s/out'' (Wellformed (JObj [(''seq'', JNum 0), (''data'', JStr ''a'')])))
     \<lparr>targetId = ''t'', ttyId = ''s'', isAlive = True, m_seqIn = 0, m_seqOut = 1,
       bufferOut = [], heartbeat = True, listening = True, is_open = True\<rparr> =
   Inr (\<lparr>targetId = ''t'', ttyId = ''s'', isAlive = True, m_seqIn = 0, m_seqOut = 1,
         bufferOut = [\<lparr>seq = 0, data = ''a''\<rparr>], heartbeat = True, listening = True,
         is_open = True\<rparr>, [])
 \<and> (\<exists>out sh'. shell_feed ''t/in'' ''t/in''
        [Wellformed (JObj [(''seq'', JNum 0), (''data'', JStr ''a'')]),
         Wellformed (JObj [(''seq'', JNum 0), (''data'', JStr ''a'')])]
        \<lparr>process = 7, seqIn = 0, seqOut = 0, bufferIn = []\<rparr> =
          Inr (sh', map (\<lambda>q. Write 7 (data q)) out)
      \<and> map seq out = [0..seqIn sh' - 1] \<and> distinct (map seq out)
      \<and> mset out + mset (bufferIn sh') = mset [\<lparr>seq = 0, data = ''a''\<rparr>, \<lparr>seq = 0, data = ''a''\<rparr>])"
  using late_packet_kept[of "\<lparr>seq = 0, data = ''a''\<rparr>"
      "\<lparr>process = 7, seqIn = 1, seqOut = 0, bufferIn = []\<rparr>" "''t/in''"
      "\<lparr>targetId = ''t'', ttyId = ''s'', isAlive = True, m_seqIn = 0, m_seqOut = 1,
        bufferOut = [], heartbeat = True, listening = True, is_open = True\<rparr>" "''p/''"
      "\<lparr>process = 7, seqIn = 0, seqOut = 0, bufferIn = []\<rparr>"
      "[\<lparr>seq = 0, data = ''a''\<rparr>, \<lparr>seq = 0, data = ''a''\<rparr>]"]
  by (simp add: JSON_stringify_def packet_json_def topicTtyOut_def topicTty_def topic_def)

text \<open>
  C2 as stated fails: after the packets 0 and 0 again, the second stays at the head of
  the buffer, and packet 1 is never written; without the duplicate it is.
\<close>

theorem late_packet_counterexample:
  "shell_feed ''t/in'' ''t/in''
     [Wellformed (JObj [(''seq'', JNum 0), (''data'', JStr ''a'')]),
      Wellformed (JObj [(''seq'', JNum 0), (''data'', JStr ''a'')]),
      Wellformed (JObj [(''seq'', JNum 1), (''data'', JStr ''b'')])]
     \<lparr>process = 7, seqIn = 0, seqOut = 0, bufferIn = []\<rparr> =
   Inr (\<lparr>process = 7, seqIn = 1, seqOut = 0,
         bufferIn = [\<lparr>seq = 0, data = ''a''\<rparr>, \<lparr>seq = 1, data = ''b''\<rparr>]\<rparr>,
        [Write 7 ''a''])
 \<and> shell_feed ''t/in'' ''t/in''
     [Wellformed (JObj [(''seq'', JNum 0), (''data'', JStr ''a'')]),
      Wellformed (JObj [(''seq'', JNum 1), (''data'', JStr ''b'')])]
     \<lparr>process = 7, seqIn = 0, seqOut = 0, bufferIn = []\<rparr> =
   Inr (\<lparr>process = 7, seqIn = 2, seqOut = 0, bufferIn = []\<rparr>,
        [Write 7 ''a'', Write 7 ''b''])"
  by (simp add: shell_onMessage_def reorder_def)

text \<open>
  C3 says that a payload that is not valid JSON is dropped and logged and that no
  exception leaves the handler. Every handler calls \<^verbatim>\<open>JSON.parse\<close> first and outside
  any \<^verbatim>\<open>try\<close>: on such a payload the SyntaxError leaves \<^verbatim>\<open>ttyCreate\<close>, \<^verbatim>\<open>ttyRemove\<close>,
  the dispatch of the control topics, \<^verbatim>\<open>shell.onMessage\<close> and the master's
  \<^verbatim>\<open>onMessage\<close>, and nothing is logged. (The state is not touched before the throw.)
\<close>

theorem malformed_json_throws:
  "ttyCreate cfg (Malformed s) st = Inl SyntaxError
 \<and> ttyRemove cfg (Malformed s) st = Inl SyntaxError
 \<and> on_message cfg (topicCreate (arg_prefix cfg) (arg_id cfg)) (Malformed s) st = Inl SyntaxError
 \<and> on_message cfg (topicRemove (arg_prefix cfg) (arg_id cfg)) (Malformed s) st = Inl SyntaxError
 \<and> shell_onMessage tin tin (Malformed s) sh = Inl SyntaxError
 \<and> onMessage pre (topicTtyOut pre (targetId c) (ttyId c)) (Malformed s) c = Inl SyntaxError"
  by (simp add: on_message_create on_message_remove ttyCreate_def ttyRemove_def
      shell_onMessage_def onMessage_def)

text \<open>
  C4. An accepted connection starts the interval timer with 30000 ms. While the client
  answers no ping, whatever else happens (it sends data, broker messages arrive, the
  peer closes), the first firing of the timer sends a ping and the second calls
  \<^verbatim>\<open>terminate()\<close>; the close handler then stops the timer, unsubscribes and publishes
  \<^verbatim>\<open>{id: sessionId}\<close> to \<^verbatim>\<open>base/remove\<close> with qos 1. Over every such run that no handler
  throws in, and there is one whenever the broker messages are readable, the
  connection is terminated once, exactly when the timer has fired twice before any
  close by the peer, and the remove message is published once, exactly when the
  connection has closed, and never again afterwards.
\<close>

theorem heartbeat_timeout:
  assumes "connection pre fresh target_param = (Some c0, es0)"
    and "list_all (\<lambda>ev. ev \<noteq> Pong) evs"
  shows "target_param = Some (targetId c0) \<and> ttyId c0 = fresh
     \<and> SetInterval 30000 \<in> set es0
     \<and> (list_all (readable (topicTtyOut pre (targetId c0) fresh)) evs \<longrightarrow>
          (\<exists>c es. ws_run pre evs c0 = Inr (c, es)
             \<and> count_list es WsTerminate =
                 (if 2 \<le> count_list (takeWhile (\<lambda>ev. ev \<noteq> PeerClose) evs) Tick then 1 else 0)
             \<and> count_list es (Publish (topicRemove pre (targetId c0))
                                 (Wellformed (JObj [(''id'', JStr fresh)])) (Some 1))
                 = (if 2 \<le> count_list evs Tick \<or> PeerClose \<in> set evs then 1 else 0)
             \<and> is_open c = (count_list evs Tick < 2 \<and> PeerClose \<notin> set evs)))
     \<and> (ws_run pre evs c0 = Inr (c, es) \<longrightarrow>
           count_list es WsTerminate =
             (if 2 \<le> count_list (takeWhile (\<lambda>ev. ev \<noteq> PeerClose) evs) Tick then 1 else 0)
         \<and> count_list es (Publish (topicRemove pre (targetId c0))
                             (Wellformed (JObj [(''id'', JStr fresh)])) (Some 1))
             = (if 2 \<le> count_list evs Tick \<or> PeerClose \<in> set evs then 1 else 0)
         \<and> is_open c = (count_list evs Tick < 2 \<and> PeerClose \<notin> set evs))
     \<and> ws_run pre [Tick] c0 = Inr (c0\<lparr>isAlive := False\<rparr>, [WsPing])
     \<and> ws_run pre [Tick, Tick] c0 =
         Inr (c0\<lparr>isAlive := False, heartbeat := False, listening := False, is_open := False\<rparr>,
              [WsPing, WsTerminate, Log LvInfo ''disconnected'', ClearInterval,
               Unsubscribe (topicTtyOut pre (targetId c0) fresh),
               Off_message (topicTtyOut pre (targetId c0) fresh),
               Publish (topicRemove pre (targetId c0))
                 (Wellformed (JObj [(''id'', JStr fresh)])) (Some 1)])"
proof -
  from connection_accepted[OF assms(1)] obtain tid where t: "target_param = Some tid"
    and c0: "c0 = \<lparr>targetId = tid, ttyId = fresh, isAlive = True, m_seqIn = 0, m_seqOut = 0,
           bufferOut = [], heartbeat = True, listening = True, is_open = True\<rparr>"
    and es0: "SetInterval 30000 \<in> set es0" by auto
  have h: "heartbeat c0" "listening c0" "is_open c0" "isAlive c0" "targetId c0 = tid" "ttyId c0 = fresh"
    by (simp_all add: c0)
  have g: "count_list es' WsTerminate =
             (if 2 \<le> count_list (takeWhile (\<lambda>ev. ev \<noteq> PeerClose) evs) Tick then 1 else 0)
         \<and> count_list es' (Publish (topicRemove pre (targetId c0))
                             (Wellformed (JObj [(''id'', JStr fresh)])) (Some 1))
             = (if 2 \<le> count_list evs Tick \<or> PeerClose \<in> set evs then 1 else 0)
         \<and> is_open c' = (count_list evs Tick < 2 \<and> PeerClose \<notin> set evs)"
    if "ws_run pre evs c0 = Inr (c', es')" for c' es'
    using silent_run[OF h(1-3) assms(2) that] h(4,6) by simp
  have ex: "\<exists>c es. ws_run pre evs c0 = Inr (c, es)
             \<and> count_list es WsTerminate =
                 (if 2 \<le> count_list (takeWhile (\<lambda>ev. ev \<noteq> PeerClose) evs) Tick then 1 else 0)
             \<and> count_list es (Publish (topicRemove pre (targetId c0))
                                 (Wellformed (JObj [(''id'', JStr fresh)])) (Some 1))
                 = (if 2 \<le> count_list evs Tick \<or> PeerClose \<in> set evs then 1 else 0)
             \<and> is_open c = (count_list evs Tick < 2 \<and> PeerClose \<notin> set evs)"
    if rd: "list_all (readable (topicTtyOut pre (targetId c0) fresh)) evs"
  proof -
    from readable_run[of pre c0 evs] rd h(6) obtain c' es' where r: "ws_run pre evs c0 = Inr (c', es')"
      by auto
    from g[OF r] r show ?thesis by blast
  qed
  have one: "ws_run pre [Tick] c0 = Inr (c0\<lparr>isAlive := False\<rparr>, [WsPing])"
    using tick_alive[OF h(1,4), of pre] by simp
  have two: "ws_run pre [Tick, Tick] c0 =
         Inr (c0\<lparr>isAlive := False, heartbeat := False, listening := False, is_open := False\<rparr>,
              [WsPing, WsTerminate, Log LvInfo ''disconnected'', ClearInterval,
               Unsubscribe (topicTtyOut pre (targetId c0) fresh),
               Off_message (topicTtyOut pre (targetId c0) fresh),
               Publish (topicRemove pre (targetId c0))
                 (Wellformed (JObj [(''id'', JStr fresh)])) (Some 1)])"
    using tick_alive[OF h(1,4), of pre] tick_dead[of "c0\<lparr>isAlive := False\<rparr>" pre] h by simp
  have a: "target_param = Some (targetId c0)" using t h(5) by simp
  show ?thesis using a h(6) es0 ex g[of c es] one two by blast
qed

theorem heartbeat_timeout_witness:
  "connection ''p/'' ''22222222-2222-2222-2222-222222222222''
      (Some ''11111111-1111-1111-1111-111111111111'') =
    (Some \<lparr>targetId = ''11111111-1111-1111-1111-111111111111'',
            ttyId = ''22222222-2222-2222-2222-222222222222'', isAlive = True,
            m_seqIn = 0, m_seqOut = 0, bufferOut = [], heartbeat = True,
            listening = True, is_open = True\<rparr>,
     [Log LvInfo ''connected'',
      Publish ''p/11111111-1111-1111-1111-111111111111/create''
        (Wellformed (JObj [(''id'', JStr ''22222222-2222-2222-2222-222222222222'')])) (Some 1),
      SetInterval 30000,
      Subscribe ''p/11111111-1111-1111-1111-111111111111/22222222-2222-2222-2222-222222222222/out'',
      On_message ''p/11111111-1111-1111-1111-111111111111/22222222-2222-2222-2222-222222222222/out''])
 \<and> ws_run ''p/'' [Tick, Tick]
      \<lparr>targetId = ''11111111-1111-1111-1111-111111111111'',
        ttyId = ''22222222-2222-2222-2222-222222222222'', isAlive = True,
        m_seqIn = 0, m_seqOut = 0, bufferOut = [], heartbeat = True,
        listening = True, is_open = True\<rparr> =
    Inr (\<lparr>targetId = ''11111111-1111-1111-1111-111111111111'',
           ttyId = ''22222222-2222-2222-2222-222222222222'', isAlive = False,
           m_seqIn = 0, m_seqOut = 0, bufferOut = [], heartbeat = False,
           listening = False, is_open = False\<rparr>,
         [WsPing, WsTerminate, Log LvInfo ''disconnected'', ClearInterval,
          Unsubscribe ''p/11111111-1111-1111-1111-111111111111/22222222-2222-2222-2222-222222222222/out'',
          Off_message ''p/11111111-1111-1111-1111-111111111111/22222222-2222-2222-2222-222222222222/out'',
          Publish ''p/11111111-1111-1111-1111-111111111111/remove''
            (Wellformed (JObj [(''id'', JStr ''22222222-2222-2222-2222-222222222222'')])) (Some 1)])
 \<and> (\<exists>c es. ws_run ''p/''
        [Tick,
         MqttMessage ''p/11111111-1111-1111-1111-111111111111/22222222-2222-2222-2222-222222222222/out''
           (Wellformed (JObj [(''seq'', JNum 0), (''data'', JStr ''$ '')])),
         WsMessage ''ls'', Tick, Tick]
        \<lparr>targetId = ''11111111-1111-1111-1111-111111111111'',
          ttyId = ''22222222-2222-2222-2222-222222222222'', isAlive = True,
          m_seqIn = 0, m_seqOut = 0, bufferOut = [], heartbeat = True,
          listening = True, is_open = True\<rparr> = Inr (c, es)
      \<and> count_list es WsTerminate = 1
      \<and> count_list es (Publish ''p/11111111-1111-1111-1111-111111111111/remove''
            (Wellformed (JObj [(''id'', JStr ''22222222-2222-2222-2222-222222222222'')])) (Some 1)) = 1
      \<and> \<not> is_open c)"
proof -
  let ?c0 = "\<lparr>targetId = ''11111111-1111-1111-1111-111111111111'',
            ttyId = ''22222222-2222-2222-2222-222222222222'', isAlive = True,
            m_seqIn = 0, m_seqOut = 0, bufferOut = [], heartbeat = True,
            listening = True, is_open = True\<rparr>"
  let ?es0 = "[Log LvInfo ''connected'',
      Publish ''p/11111111-1111-1111-1111-111111111111/create''
        (Wellformed (JObj [(''id'', JStr ''22222222-2222-2222-2222-222222222222'')])) (Some 1),
      SetInterval 30000,
      Subscribe ''p/11111111-1111-1111-1111-111111111111/22222222-2222-2222-2222-222222222222/out'',
      On_message ''p/11111111-1111-1111-1111-111111111111/22222222-2222-2222-2222-222222222222/out'']"
  let ?evs = "[Tick,
         MqttMessage ''p/11111111-1111-1111-1111-111111111111/22222222-2222-2222-2222-222222222222/out''
           (Wellformed (JObj [(''seq'', JNum 0), (''data'', JStr ''$ '')])),
         WsMessage ''ls'', Tick, Tick]"
  have acc: "connection ''p/'' ''22222222-2222-2222-2222-222222222222''
      (Some ''11111111-1111-1111-1111-111111111111'') = (Some ?c0, ?es0)"
    using uuid_shaped_test[OF uuid_shaped_ones]
    by (simp add: connection_def VALIDATOR_TARGET_def target_text_def JSON_stringify_def topicCreate_def
        topicTtyOut_def topicTty_def topic_def HEARTBEAT_INTERVAL_def Let_def
        del: PATTERN_UUID_test.simps)
  have np: "list_all (\<lambda>ev. ev \<noteq> Pong) ?evs" by simp
  have rd: "list_all (readable (topicTtyOut ''p/'' (targetId ?c0) ''22222222-2222-2222-2222-222222222222'')) ?evs"
    by (simp add: readable_def)
  note h = heartbeat_timeout[OF acc np]
  have tr: "topicRemove ''p/'' ''11111111-1111-1111-1111-111111111111'' = ''p/11111111-1111-1111-1111-111111111111/remove''"
    by (simp add: topicRemove_def topic_def)
  have tout: "topicTtyOut ''p/'' ''11111111-1111-1111-1111-111111111111'' ''22222222-2222-2222-2222-222222222222'' =
      ''p/11111111-1111-1111-1111-111111111111/22222222-2222-2222-2222-222222222222/out''"
    by (simp add: topicTtyOut_def topicTty_def topic_def)
  have cnt: "count_list ?evs Tick = 3" "count_list (takeWhile (\<lambda>ev. ev \<noteq> PeerClose) ?evs) Tick = 3"
    "PeerClose \<notin> set ?evs" by simp_all
  from h have two: "ws_run ''p/'' [Tick, Tick] ?c0 =
         Inr (?c0\<lparr>isAlive := False, heartbeat := False, listening := False, is_open := False\<rparr>,
              [WsPing, WsTerminate, Log LvInfo ''disconnected'', ClearInterval,
               Unsubscribe (topicTtyOut ''p/'' (targetId ?c0) ''22222222-2222-2222-2222-222222222222''),
               Off_message (topicTtyOut ''p/'' (targetId ?c0) ''22222222-2222-2222-2222-222222222222''),
               Publish (topicRemove ''p/'' (targetId ?c0))
                 (Wellformed (JObj [(''id'', JStr ''22222222-2222-2222-2222-222222222222'')])) (Some 1)])"
    by blast
  from h[THEN conjunct2, THEN conjunct2, THEN conjunct2, THEN conjunct1, THEN mp, OF rd]
  obtain c es where r: "ws_run ''p/'' ?evs ?c0 = Inr (c, es)"
    and a: "count_list es WsTerminate =
        (if 2 \<le> count_list (takeWhile (\<lambda>ev. ev \<noteq> PeerClose) ?evs) Tick then 1 else 0)"
    and b: "count_list es (Publish (topicRemove ''p/'' (targetId ?c0))
                               (Wellformed (JObj [(''id'', JStr ''22222222-2222-2222-2222-222222222222'')])) (Some 1))
               = (if 2 \<le> count_list ?evs Tick \<or> PeerClose \<in> set ?evs then 1 else 0)"
    and o: "is_open c = (count_list ?evs Tick < 2 \<and> PeerClose \<notin> set ?evs)"
    by blast
  have two': "ws_run ''p/'' [Tick, Tick] ?c0 =
    Inr (\<lparr>targetId = ''11111111-1111-1111-1111-111111111111'',
           ttyId = ''22222222-2222-2222-2222-222222222222'', isAlive = False,
           m_seqIn = 0, m_seqOut = 0, bufferOut = [], heartbeat = False,
           listening = False, is_open = False\<rparr>,
         [WsPing, WsTerminate, Log LvInfo ''disconnected'', ClearInterval,
          Unsubscribe ''p/11111111-1111-1111-1111-111111111111/22222222-2222-2222-2222-222222222222/out'',
          Off_message ''p/11111111-1111-1111-1111-111111111111/22222222-2222-2222-2222-222222222222/out'',
          Publish ''p/11111111-1111-1111-1111-111111111111/remove''
            (Wellformed (JObj [(''id'', JStr ''22222222-2222-2222-2222-222222222222'')])) (Some 1)])"
    using two by (simp only: conn.simps tr tout)
  have a': "count_list es WsTerminate = 1" using a by (simp only: cnt) simp
  have b': "count_list es (Publish ''p/11111111-1111-1111-1111-111111111111/remove''
            (Wellformed (JObj [(''id'', JStr ''22222222-2222-2222-2222-222222222222'')])) (Some 1)) = 1"
    using b by (simp only: cnt conn.simps tr) simp
  have o': "\<not> is_open c" using o by (simp only: cnt) simp
  show ?thesis using acc two' r a' b' o' by blast
qed

text \<open>
  C5 says that a target identifier that is not UUID-shaped is rejected. The validator
  searches the pattern inside the string, so an identifier with a UUID in it passes:
  for \<^verbatim>\<open>?target=x11111111-1111-1111-1111-111111111111\<close> the handler creates the
  session, publishes the create message and subscribes to the session's out topic.
\<close>

theorem unanchored_target_accepted:
  "\<not> uuid_shaped ''x11111111-1111-1111-1111-111111111111''
 \<and> connection ''p/'' ''22222222-2222-2222-2222-222222222222''
      (Some ''x11111111-1111-1111-1111-111111111111'') =
    (Some \<lparr>targetId = ''x11111111-1111-1111-1111-111111111111'',
            ttyId = ''22222222-2222-2222-2222-222222222222'', isAlive = True,
            m_seqIn = 0, m_seqOut = 0, bufferOut = [], heartbeat = True,
            listening = True, is_open = True\<rparr>,
     [Log LvInfo ''connected'',
      Publish ''p/x11111111-1111-1111-1111-111111111111/create''
        (Wellformed (JObj [(''id'', JStr ''22222222-2222-2222-2222-222222222222'')])) (Some 1),
      SetInterval 30000,
      Subscribe ''p/x11111111-1111-1111-1111-111111111111/22222222-2222-2222-2222-222222222222/out'',
      On_message ''p/x11111111-1111-1111-1111-111111111111/22222222-2222-2222-2222-222222222222/out''])"
  by (simp add: not_uuid_shaped_x PATTERN_UUID_test_x connection_def VALIDATOR_TARGET_def target_text_def
      JSON_stringify_def topicCreate_def topicTtyOut_def topicTty_def topic_def
      HEARTBEAT_INTERVAL_def Let_def del: PATTERN_UUID_test.simps)

text \<open>
  C6. A create for a session identifier \<open>S\<close> that is in \<^verbatim>\<open>shells\<close> logs one warning and
  does nothing else: no process is spawned, nothing is subscribed, no list is
  published, and the state, with the entry of \<open>S\<close> and its process, is as before. The
  same holds for the whole dispatch of a message on the create topic. In a state the
  target has reached, that entry is the only entry of \<open>S\<close> and its process the only
  live process spawned for \<open>S\<close>.
\<close>

theorem create_existing_noop:
  assumes "VALIDATOR_CREATE params" and "params_id params = Some S"
    and "map_of (shells st) (Some S) = Some sh"
  shows "ttyCreate cfg (Wellformed params) st = Inr (st, [Log LvWarn ''shell already exists''])
       \<and> on_message cfg (topicCreate (arg_prefix cfg) (arg_id cfg)) (Wellformed params) st =
           Inr (st, [Log LvWarn ''shell already exists''])
       \<and> (run cfg evs target_init = Inr (st, es) \<longrightarrow>
            filter (\<lambda>e. fst e = Some S) (shells st) = [(Some S, sh)]
            \<and> filter (\<lambda>e. snd e = Some S) (procs st) = [(process sh, Some S)])"
proof -
  have a: "ttyCreate cfg (Wellformed params) st = Inr (st, [Log LvWarn ''shell already exists''])"
    using assms by (simp add: ttyCreate_def has_def)
  have b: "filter (\<lambda>e. fst e = Some S) (shells st) = [(Some S, sh)]
            \<and> filter (\<lambda>e. snd e = Some S) (procs st) = [(process sh, Some S)]"
    if r: "run cfg evs target_init = Inr (st, es)"
  proof -
    have ok: "registry_ok st" using run_ok[OF registry_ok_init r] .
    then have d: "distinct (map fst (shells st))" and bd: "bound st = procs st"
      by (simp_all add: registry_ok_def)
    have f: "filter (\<lambda>e. fst e = Some S) (shells st) = [(Some S, sh)]"
      using distinct_single_entry[OF d assms(3)] .
    have "filter (\<lambda>e. snd e = Some S) (procs st) =
        map (\<lambda>e. (process (snd e), fst e)) (filter (\<lambda>e. fst e = Some S) (shells st))"
      using bd[symmetric] by (simp add: bound_def filter_map comp_def)
    with f show ?thesis by simp
  qed
  show ?thesis using a b by (simp add: on_message_create)
qed

theorem create_existing_noop_witness:
  "VALIDATOR_CREATE (JObj [(''id'', JStr ''22222222-2222-2222-2222-222222222222'')])
 \<and> run \<lparr>arg_prefix = ''p/'', arg_id = ''t'', arg_shell = ''bash''\<rparr>
      [Message ''p/t/create'' (Wellformed (JObj [(''id'', JStr ''22222222-2222-2222-2222-222222222222'')]))]
      target_init =
    Inr (\<lparr>shells = [(Some ''22222222-2222-2222-2222-222222222222'',
                       \<lparr>process = 0, seqIn = 0, seqOut = 0, bufferIn = []\<rparr>)],
           procs = [(0, Some ''22222222-2222-2222-2222-222222222222'')], spawned = 1\<rparr>,
         [Log LvInfo [], Spawn 0 ''bash'',
          Subscribe ''p/t/22222222-2222-2222-2222-222222222222/in'',
          On_message ''p/t/22222222-2222-2222-2222-222222222222/in'',
          Publish ''p/t/list'' (Wellformed (JArr [JStr ''22222222-2222-2222-2222-222222222222''])) (Some 1)])
 \<and> ttyCreate \<lparr>arg_prefix = ''p/'', arg_id = ''t'', arg_shell = ''bash''\<rparr>
      (Wellformed (JObj [(''id'', JStr ''22222222-2222-2222-2222-222222222222'')]))
      \<lparr>shells = [(Some ''22222222-2222-2222-2222-222222222222'',
                   \<lparr>process = 0, seqIn = 0, seqOut = 0, bufferIn = []\<rparr>)],
        procs = [(0, Some ''22222222-2222-2222-2222-222222222222'')], spawned = 1\<rparr> =
    Inr (\<lparr>shells = [(Some ''22222222-2222-2222-2222-222222222222'',
                       \<lparr>process = 0, seqIn = 0, seqOut = 0, bufferIn = []\<rparr>)],
           procs = [(0, Some ''22222222-2222-2222-2222-222222222222'')], spawned = 1\<rparr>,
         [Log LvWarn ''shell already exists''])"
proof -
  let ?params = "JObj [(''id'', JStr ''22222222-2222-2222-2222-222222222222'')]"
  let ?sh = "\<lparr>process = 0, seqIn = 0, seqOut = 0, bufferIn = []\<rparr>"
  let ?st = "\<lparr>shells = [(Some ''22222222-2222-2222-2222-222222222222'', ?sh)],
        procs = [(0, Some ''22222222-2222-2222-2222-222222222222'')], spawned = 1\<rparr>"
  let ?cfg = "\<lparr>arg_prefix = ''p/'', arg_id = ''t'', arg_shell = ''bash''\<rparr>"
  let ?es = "[Log LvInfo [], Spawn 0 ''bash'',
          Subscribe ''p/t/22222222-2222-2222-2222-222222222222/in'',
          On_message ''p/t/22222222-2222-2222-2222-222222222222/in'',
          Publish ''p/t/list'' (Wellformed (JArr [JStr ''22222222-2222-2222-2222-222222222222''])) (Some 1)]"
  have v: "VALIDATOR_CREATE ?params" by (rule VALIDATOR_CREATE_twos)
  have e: "run ?cfg [Message ''p/t/create'' (Wellformed ?params)] target_init = Inr (?st, ?es)"
    using v
    by (simp add: step_def on_message_def control_onMessage_def ttyCreate_def
        ttyList_def has_def target_init_def Let_def JSON_stringify_def key_text_def key_json_def
        topicTtyIn_def topicTty_def topicList_def topicCreate_def topicRemove_def topic_def
        del: VALIDATOR_CREATE.simps)
  have i: "params_id ?params = Some ''22222222-2222-2222-2222-222222222222''" by simp
  have m: "map_of (shells ?st) (Some ''22222222-2222-2222-2222-222222222222'') = Some ?sh" by simp
  from create_existing_noop[OF v i m, of ?cfg]
  have "ttyCreate ?cfg (Wellformed ?params) ?st = Inr (?st, [Log LvWarn ''shell already exists''])"
    by blast
  with v e show ?thesis by blast
qed

text \<open>
  C7. A remove for a session identifier that is in \<^verbatim>\<open>shells\<close> logs and sends signal 9
  to the entry's process, and changes nothing: the entry, its counters and buffer and
  the subscriptions stay. The exit observer of a live process is what unsubscribes the
  session's in topic, removes the listener, deletes the entry and publishes the list;
  it runs the same whether or not a kill was requested. No other event of the target
  removes an entry, unsubscribes or removes a listener.
\<close>

theorem remove_only_kills:
  assumes "VALIDATOR_REMOVE params" and "map_of (shells st) (params_id params) = Some sh"
  shows "ttyRemove cfg (Wellformed params) st = Inr (st, [Log LvInfo [], Kill (process sh) 9])
     \<and> on_message cfg (topicRemove (arg_prefix cfg) (arg_id cfg)) (Wellformed params) st =
         Inr (st, [Log LvInfo [], Kill (process sh) 9])
     \<and> (map_of (procs st) pid = Some k \<longrightarrow>
          step cfg (Exit pid) st =
            Inr (st\<lparr>shells := AList.delete k (shells st), procs := AList.delete pid (procs st)\<rparr>,
                 [Unsubscribe (topicTtyIn (arg_prefix cfg) (arg_id cfg) (key_text k)),
                  Off_message (topicTtyIn (arg_prefix cfg) (arg_id cfg) (key_text k)),
                  Publish (topicList (arg_prefix cfg) (arg_id cfg))
                    (Wellformed (JArr (map (\<lambda>e. key_json (fst e)) (AList.delete k (shells st)))))
                    (Some 1)])
          \<and> map_of (AList.delete k (shells st)) k = None)
     \<and> (step cfg ev st = Inr (st', es') \<and> (\<forall>p. ev \<noteq> Exit p) \<longrightarrow>
          set (map fst (shells st)) \<subseteq> set (map fst (shells st'))
          \<and> list_all (\<lambda>e. \<forall>t. e \<noteq> Unsubscribe t \<and> e \<noteq> Off_message t) es')"
proof -
  have a: "ttyRemove cfg (Wellformed params) st = Inr (st, [Log LvInfo [], Kill (process sh) 9])"
    using assms by (simp add: ttyRemove_def)
  have b: "step cfg (Exit pid) st =
            Inr (st\<lparr>shells := AList.delete k (shells st), procs := AList.delete pid (procs st)\<rparr>,
                 [Unsubscribe (topicTtyIn (arg_prefix cfg) (arg_id cfg) (key_text k)),
                  Off_message (topicTtyIn (arg_prefix cfg) (arg_id cfg) (key_text k)),
                  Publish (topicList (arg_prefix cfg) (arg_id cfg))
                    (Wellformed (JArr (map (\<lambda>e. key_json (fst e)) (AList.delete k (shells st)))))
                    (Some 1)])" if "map_of (procs st) pid = Some k"
    using that by (simp add: step_def onExit_def ttyList_def JSON_stringify_def Let_def)
  have c: "map_of (AList.delete k (shells st)) k = None"
    by (simp add: delete_conv')
  show ?thesis using a b c step_keeps[of cfg ev st st' es'] by (simp add: on_message_remove)
qed

theorem remove_only_kills_witness:
  "VALIDATOR_REMOVE (JObj [(''id'', JStr ''22222222-2222-2222-2222-222222222222'')])
 \<and> ttyRemove \<lparr>arg_prefix = ''p/'', arg_id = ''t'', arg_shell = ''bash''\<rparr>
      (Wellformed (JObj [(''id'', JStr ''22222222-2222-2222-2222-222222222222'')]))
      \<lparr>shells = [(Some ''22222222-2222-2222-2222-222222222222'',
                   \<lparr>process = 0, seqIn = 3, seqOut = 5, bufferIn = []\<rparr>)],
        procs = [(0, Some ''22222222-2222-2222-2222-222222222222'')], spawned = 1\<rparr> =
    Inr (\<lparr>shells = [(Some ''22222222-2222-2222-2222-222222222222'',
                       \<lparr>process = 0, seqIn = 3, seqOut = 5, bufferIn = []\<rparr>)],
           procs = [(0, Some ''22222222-2222-2222-2222-222222222222'')], spawned = 1\<rparr>,
         [Log LvInfo [], Kill 0 9])
 \<and> step \<lparr>arg_prefix = ''p/'', arg_id = ''t'', arg_shell = ''bash''\<rparr> (Exit 0)
      \<lparr>shells = [(Some ''22222222-2222-2222-2222-222222222222'',
                   \<lparr>process = 0, seqIn = 3, seqOut = 5, bufferIn = []\<rparr>)],
        procs = [(0, Some ''22222222-2222-2222-2222-222222222222'')], spawned = 1\<rparr> =
    Inr (\<lparr>shells = [], procs = [], spawned = 1\<rparr>,
         [Unsubscribe ''p/t/22222222-2222-2222-2222-222222222222/in'',
          Off_message ''p/t/22222222-2222-2222-2222-222222222222/in'',
          Publish ''p/t/list'' (Wellformed (JArr [])) (Some 1)])"
proof -
  let ?params = "JObj [(''id'', JStr ''22222222-2222-2222-2222-222222222222'')]"
  let ?sh = "\<lparr>process = 0, seqIn = 3, seqOut = 5, bufferIn = []\<rparr>"
  let ?st = "\<lparr>shells = [(Some ''22222222-2222-2222-2222-222222222222'', ?sh)],
        procs = [(0, Some ''22222222-2222-2222-2222-222222222222'')], spawned = 1\<rparr>"
  let ?cfg = "\<lparr>arg_prefix = ''p/'', arg_id = ''t'', arg_shell = ''bash''\<rparr>"
  have v: "VALIDATOR_REMOVE ?params" using VALIDATOR_CREATE_twos by (simp only: VALIDATOR_REMOVE_def)
  have m: "map_of (shells ?st) (params_id ?params) = Some ?sh" by simp
  show ?thesis
    using v remove_only_kills[OF v m, of ?cfg 0 "Some ''22222222-2222-2222-2222-222222222222''"
        Connect ?st "[]"]
    by (simp add: topicTtyIn_def topicTty_def topicList_def topic_def key_text_def
        del: VALIDATOR_CREATE.simps)
qed

text \<open>
  C8, as the code has it. On every connect the handler first publishes the list of the
  current session identifiers to \<^verbatim>\<open>base/list\<close> with qos 1, then subscribes to
  \<^verbatim>\<open>base/create\<close>, then to \<^verbatim>\<open>base/remove\<close>; the state is unchanged.
\<close>

theorem connect_publishes_then_subscribes:
  "step cfg Connect st =
     Inr (st, [Publish (arg_prefix cfg @ arg_id cfg @ ''/list'')
                 (Wellformed (JArr (map (\<lambda>e. key_json (fst e)) (shells st)))) (Some 1),
               Subscribe (arg_prefix cfg @ arg_id cfg @ ''/create''),
               Subscribe (arg_prefix cfg @ arg_id cfg @ ''/remove'')])
 \<and> on_connect cfg st =
       [ttyList cfg st,
        Subscribe (topicCreate (arg_prefix cfg) (arg_id cfg)),
        Subscribe (topicRemove (arg_prefix cfg) (arg_id cfg))]"
  by (simp add: step_def on_connect_def ttyList_def JSON_stringify_def topicList_def
      topicCreate_def topicRemove_def topic_def)

text \<open>
  C8 as stated fails: the first call of the connect handler is the publish, before
  either subscription.
\<close>

theorem connect_order_counterexample:
  "on_connect \<lparr>arg_prefix = ''p/'', arg_id = ''t'', arg_shell = ''bash''\<rparr> target_init =
     [Publish ''p/t/list'' (Wellformed (JArr [])) (Some 1),
      Subscribe ''p/t/create'',
      Subscribe ''p/t/remove'']"
  by (simp add: on_connect_def ttyList_def JSON_stringify_def topicList_def
      topicCreate_def topicRemove_def topic_def target_init_def)

text \<open>
  C9, as the code has it. For a fixed prefix and two distinct pairs of UUID-shaped
  identifiers (the whole string matches the pattern), the session topics
  \<^verbatim>\<open>base/S/in\<close> and \<^verbatim>\<open>base/S/out\<close> of one pair are not among the topics of the other
  pair; when the target identifiers differ, the two topic sets are disjoint.
\<close>

theorem topics_disjoint:
  assumes "uuid_shaped t1" and "uuid_shaped s1" and "uuid_shaped t2" and "uuid_shaped s2"
    and "(t1, s1) \<noteq> (t2, s2)"
  shows "session_topics pre t1 s1 \<inter> topics pre t2 s2 = {}
       \<and> (t1 \<noteq> t2 \<longrightarrow> topics pre t1 s1 \<inter> topics pre t2 s2 = {})"
proof -
  have lt: "length t1 = length t2" and ls: "length s1 = length s2" and l36: "length s1 = 36"
    using assms(1-4) by (simp_all add: uuid_shaped_length)
  have tt: "(t1 @ x = t2 @ y) = (t1 = t2 \<and> x = y)" "(t2 @ x = t1 @ y) = (t2 = t1 \<and> x = y)" for x y
    using lt by simp_all
  have t0: "(t1 @ x = t2) = (t1 = t2 \<and> x = [])" "(t2 @ x = t1) = (t2 = t1 \<and> x = [])"
    "(t2 = t1 @ x) = (t2 = t1 \<and> x = [])" "(t1 = t2 @ x) = (t1 = t2 \<and> x = [])" for x
    using tt(1)[of x "[]"] tt(2)[of x "[]"] tt(2)[of "[]" x] tt(1)[of "[]" x] by auto
  have ss: "(s1 @ x = s2 @ y) = (s1 = s2 \<and> x = y)" "(s2 @ x = s1 @ y) = (s2 = s1 \<and> x = y)" for x y
    using ls by simp_all
  have short: "s1 @ x \<noteq> y" "y \<noteq> s1 @ x" if "length y < 36" for x y
    using l36 that by (metis length_append not_add_less1)+
  have sh: "s1 @ x \<noteq> ''list''" "s1 @ x \<noteq> ''create''" "s1 @ x \<noteq> ''remove''" "s1 @ x \<noteq> []"
    "''list'' \<noteq> s1 @ x" "''create'' \<noteq> s1 @ x" "''remove'' \<noteq> s1 @ x" for x
    using short[of "''list''" x] short[of "''create''" x] short[of "''remove''" x] short[of "[]" x]
    by simp_all
  have a: "session_topics pre t1 s1 \<inter> topics pre t2 s2 = {}"
  proof (cases "t1 = t2")
    case True
    with assms(5) have "s1 \<noteq> s2" by simp
    then show ?thesis using True
      by (auto simp: ss sh session_topics_def topics_def control_topics_def topicTtyIn_def
        topicTtyOut_def topicTty_def topicList_def topicCreate_def topicRemove_def topic_def)
  next
    case False
    then show ?thesis
      by (auto simp: tt t0 session_topics_def topics_def control_topics_def topicTtyIn_def
        topicTtyOut_def topicTty_def topicList_def topicCreate_def topicRemove_def topic_def)
  qed
  have b: "topics pre t1 s1 \<inter> topics pre t2 s2 = {}" if "t1 \<noteq> t2"
    using that
    by (auto simp: tt t0 session_topics_def topics_def control_topics_def topicTtyIn_def
        topicTtyOut_def topicTty_def topicList_def topicCreate_def topicRemove_def topic_def)
  show ?thesis using a b by simp
qed

theorem topics_disjoint_witness:
  "uuid_shaped ''11111111-1111-1111-1111-111111111111''
 \<and> uuid_shaped ''22222222-2222-2222-2222-222222222222''
 \<and> uuid_shaped ''33333333-3333-3333-3333-333333333333''
 \<and> session_topics ''p/'' ''11111111-1111-1111-1111-111111111111'' ''22222222-2222-2222-2222-222222222222''
     \<inter> topics ''p/'' ''11111111-1111-1111-1111-111111111111'' ''33333333-3333-3333-3333-333333333333'' = {}"
  using uuid_shaped_ones uuid_shaped_twos uuid_shaped_threes
    topics_disjoint[OF uuid_shaped_ones uuid_shaped_twos uuid_shaped_ones uuid_shaped_threes, of "''p/''"]
  by simp

text \<open>
  C9 as stated fails: two sessions of one target share the topics of the target, here
  its list topic.
\<close>

theorem topics_shared_counterexample:
  "uuid_shaped ''11111111-1111-1111-1111-111111111111''
 \<and> uuid_shaped ''22222222-2222-2222-2222-222222222222''
 \<and> uuid_shaped ''33333333-3333-3333-3333-333333333333''
 \<and> (''11111111-1111-1111-1111-111111111111'', ''22222222-2222-2222-2222-222222222222'')
     \<noteq> (''11111111-1111-1111-1111-111111111111'', ''33333333-3333-3333-3333-333333333333'')
 \<and> ''p/11111111-1111-1111-1111-111111111111/list''
     \<in> topics ''p/'' ''11111111-1111-1111-1111-111111111111'' ''22222222-2222-2222-2222-222222222222''
       \<inter> topics ''p/'' ''11111111-1111-1111-1111-111111111111'' ''33333333-3333-3333-3333-333333333333''"
  using uuid_shaped_ones uuid_shaped_twos uuid_shaped_threes
  by (simp add: topics_def control_topics_def topicList_def topic_def)

text \<open>
  C10. In every state the target reaches from its start, no two live processes carry
  the same session identifier and the entries of \<^verbatim>\<open>shells\<close> are exactly the live
  processes, each under the identifier it was spawned for. A create that arrives after
  a remove of the same identifier, before the exit of the process is observed, is
  answered with the warning that the shell exists: nothing is spawned and the state
  stays.
\<close>

theorem one_process_per_session:
  assumes "run cfg evs target_init = Inr (st, es)"
  shows "distinct (map snd (procs st)) \<and> distinct (map fst (procs st))
     \<and> distinct (map fst (shells st)) \<and> bound st = procs st
     \<and> (VALIDATOR_CREATE params \<and> map_of (shells st) (params_id params) = Some sh \<longrightarrow>
          run cfg [Message (topicRemove (arg_prefix cfg) (arg_id cfg)) (Wellformed params),
                   Message (topicCreate (arg_prefix cfg) (arg_id cfg)) (Wellformed params)] st =
            Inr (st, [Log LvInfo [], Kill (process sh) 9, Log LvWarn ''shell already exists'']))"
proof -
  have ok: "registry_ok st" using run_ok[OF registry_ok_init assms] .
  then have d1: "distinct (map fst (shells st))" and d2: "distinct (map fst (procs st))"
    and b: "bound st = procs st" by (simp_all add: registry_ok_def)
  have "map snd (procs st) = map fst (shells st)" using b[symmetric] by (simp add: bound_def comp_def)
  with d1 have d3: "distinct (map snd (procs st))" by simp
  have r: "run cfg [Message (topicRemove (arg_prefix cfg) (arg_id cfg)) (Wellformed params),
                   Message (topicCreate (arg_prefix cfg) (arg_id cfg)) (Wellformed params)] st =
            Inr (st, [Log LvInfo [], Kill (process sh) 9, Log LvWarn ''shell already exists''])"
    if "VALIDATOR_CREATE params" "map_of (shells st) (params_id params) = Some sh"
    using that
    by (simp add: step_def on_message_remove on_message_create ttyRemove_def ttyCreate_def
        VALIDATOR_REMOVE_def has_def)
  show ?thesis using d1 d2 d3 b r by simp
qed

theorem one_process_per_session_witness:
  "run \<lparr>arg_prefix = ''p/'', arg_id = ''t'', arg_shell = ''bash''\<rparr>
     [Connect,
      Message ''p/t/create'' (Wellformed (JObj [(''id'', JStr ''22222222-2222-2222-2222-222222222222'')]))]
     target_init =
   Inr (\<lparr>shells = [(Some ''22222222-2222-2222-2222-222222222222'',
                      \<lparr>process = 0, seqIn = 0, seqOut = 0, bufferIn = []\<rparr>)],
          procs = [(0, Some ''22222222-2222-2222-2222-222222222222'')], spawned = 1\<rparr>,
        [Publish ''p/t/list'' (Wellformed (JArr [])) (Some 1),
         Subscribe ''p/t/create'', Subscribe ''p/t/remove'',
         Log LvInfo [], Spawn 0 ''bash'',
         Subscribe ''p/t/22222222-2222-2222-2222-222222222222/in'',
         On_message ''p/t/22222222-2222-2222-2222-222222222222/in'',
         Publish ''p/t/list'' (Wellformed (JArr [JStr ''22222222-2222-2222-2222-222222222222''])) (Some 1)])
 \<and> run \<lparr>arg_prefix = ''p/'', arg_id = ''t'', arg_shell = ''bash''\<rparr>
     [Message ''p/t/remove'' (Wellformed (JObj [(''id'', JStr ''22222222-2222-2222-2222-222222222222'')])),
      Message ''p/t/create'' (Wellformed (JObj [(''id'', JStr ''22222222-2222-2222-2222-222222222222'')]))]
     \<lparr>shells = [(Some ''22222222-2222-2222-2222-222222222222'',
                  \<lparr>process = 0, seqIn = 0, seqOut = 0, bufferIn = []\<rparr>)],
       procs = [(0, Some ''22222222-2222-2222-2222-222222222222'')], spawned = 1\<rparr> =
   Inr (\<lparr>shells = [(Some ''22222222-2222-2222-2222-222222222222'',
                      \<lparr>process = 0, seqIn = 0, seqOut = 0, bufferIn = []\<rparr>)],
          procs = [(0, Some ''22222222-2222-2222-2222-222222222222'')], spawned = 1\<rparr>,
        [Log LvInfo [], Kill 0 9, Log LvWarn ''shell already exists''])"
proof -
  let ?params = "JObj [(''id'', JStr ''22222222-2222-2222-2222-222222222222'')]"
  let ?sh = "\<lparr>process = 0, seqIn = 0, seqOut = 0, bufferIn = []\<rparr>"
  let ?st = "\<lparr>shells = [(Some ''22222222-2222-2222-2222-222222222222'', ?sh)],
        procs = [(0, Some ''22222222-2222-2222-2222-222222222222'')], spawned = 1\<rparr>"
  let ?cfg = "\<lparr>arg_prefix = ''p/'', arg_id = ''t'', arg_shell = ''bash''\<rparr>"
  let ?es = "[Publish ''p/t/list'' (Wellformed (JArr [])) (Some 1),
         Subscribe ''p/t/create'', Subscribe ''p/t/remove'',
         Log LvInfo [], Spawn 0 ''bash'',
         Subscribe ''p/t/22222222-2222-2222-2222-222222222222/in'',
         On_message ''p/t/22222222-2222-2222-2222-222222222222/in'',
         Publish ''p/t/list'' (Wellformed (JArr [JStr ''22222222-2222-2222-2222-222222222222''])) (Some 1)]"
  have e: "run ?cfg [Connect, Message ''p/t/create'' (Wellformed ?params)] target_init = Inr (?st, ?es)"
    using VALIDATOR_CREATE_twos
    by (simp add: step_def on_connect_def on_message_def control_onMessage_def ttyCreate_def
        ttyList_def has_def target_init_def Let_def JSON_stringify_def key_text_def key_json_def
        topicTtyIn_def topicTty_def topicList_def topicCreate_def topicRemove_def topic_def
        del: VALIDATOR_CREATE.simps)
  have m: "VALIDATOR_CREATE ?params \<and> map_of (shells ?st) (params_id ?params) = Some ?sh"
    using VALIDATOR_CREATE_twos by (simp del: VALIDATOR_CREATE.simps)
  show ?thesis
    using e m one_process_per_session[OF e, of ?params ?sh]
    by (simp add: topicCreate_def topicRemove_def topic_def del: VALIDATOR_CREATE.simps run.simps)
qed

end
